theory Spec2Isabelle
  imports Main "HOL-Library.Word"
begin

unbundle bit_operations_syntax

section \<open>Errors\<close>

text \<open>
  Go's \<open>error\<close> values that reach the proxy from outside (the network, TLS, the
  certificate source): \<open>io.EOF\<close> is the one \<open>copyThenClose\<close> compares against; every
  other error is opaque and carried by a tag.
\<close>

datatype err = EOF | Err nat

text \<open>
  The errors the proxy builds itself with \<open>fmt.Errorf\<close>, one constructor per format
  string of \<open>proxy/client.go\<close>, holding the values the format prints.
\<close>

datatype failure =
    ErrNetListen err
  | ErrAccept string err
  | ErrTooManyConnections "64 word"
  | ErrCertSource err
  | ErrConnect string err
  | ErrHandshake err
  | ErrActiveConnections "64 word" int
  | ErrDuringShutdown failure

section \<open>The byte relay: \<open>myCopy\<close>\<close>

text \<open>
  One pass through the loop of \<open>myCopy\<close> (\<open>proxy/client.go\<close> lines 313-327, and the same
  function of the inbound server): \<open>src.Read(buf)\<close> returns \<open>(n, err)\<close>, and
  \<open>dst.Write(buf[:n])\<close>, when it is called, returns \<open>werr\<close>. The two endpoints belong to
  the environment, so a run of the loop is driven by the list of what they answer.
\<close>

record io_round =
  rd_n :: int
  rd_err :: "err option"
  wr_err :: "err option"

text \<open>
  \<open>myCopy\<close> returns \<open>(readErr, err)\<close>. The Go loop has no exit other than its three
  \<open>return\<close>s; a script that ends before one of them is reached leaves the loop running,
  which is the value \<open>None\<close>.
\<close>

fun myCopy :: "io_round list \<Rightarrow> (bool \<times> err) option" where
  "myCopy [] = None"
| "myCopy (r # rs) =
     (if rd_n r > 0 then
        (case wr_err r of
           Some werr \<Rightarrow>
             (case rd_err r of
                None \<Rightarrow> Some (False, werr)
              | Some e \<Rightarrow> Some (True, e))
         | None \<Rightarrow>
             (case rd_err r of
                Some e \<Rightarrow> Some (True, e)
              | None \<Rightarrow> myCopy rs))
      else
        (case rd_err r of
           Some e \<Rightarrow> Some (True, e)
         | None \<Rightarrow> myCopy rs))"

text \<open>A round after which the loop goes on: the read gave no error and no write failed.\<close>

definition quiet :: "io_round \<Rightarrow> bool" where
  "quiet r \<longleftrightarrow> rd_err r = None \<and> (rd_n r \<le> 0 \<or> wr_err r = None)"

section \<open>The duplex relay: \<open>copyThenClose\<close>\<close>

datatype endpoint = Local | Remote

text \<open>The lines the proxy logs, one constructor per logging call of \<open>proxy/client.go\<close>.\<close>

datatype log_line =
    ClientClosed string
  | InstanceClosed string
  | HadErrorReading string err
  | HadErrorWriting string err
  | CouldntSetKeepAlive err
  | CouldntSetKeepAlivePeriod
  | KeepAliveNotSupported
  | ListenError failure
  | ErrorProxyingConn failure
  | Listening string string
  | NewConnection string
  | ContextCancelled int
  | NoConnectionsToWait

datatype event =
    AtomicAdd "64 word"
  | Log log_line
  | Close endpoint
  | CloseListener
  | CertRequest string
  | Dial string
  | SetKeepAlive endpoint
  | SetKeepAlivePeriod endpoint int
  | Handshake
  | Sleep int

definition logError :: "string \<Rightarrow> string \<Rightarrow> bool \<Rightarrow> err \<Rightarrow> log_line" where
  "logError readDesc writeDesc readErr e =
     (if readErr then HadErrorReading readDesc e else HadErrorWriting writeDesc e)"

text \<open>
  \<open>copyThenClose\<close> runs two goroutines: the one it starts (\<open>Bg\<close>, line 268) copies from
  \<open>local\<close> to \<open>remote\<close>, the caller itself (\<open>Fg\<close>, line 283) from \<open>remote\<close> to \<open>local\<close>.
  Each is a small program: copy; then the \<open>select\<close> that tries to send on \<open>firstErr\<close>, a
  channel of capacity 1; then, only when the send went through, the log line and the two
  \<open>Close\<close> calls.
\<close>

datatype goroutine = Bg | Fg

datatype gpc =
    Copying
  | AtSelect "bool \<times> err"
  | Claimed "bool \<times> err"
  | Reported
  | ClosedRemote
  | Finished

record relay_env =
  remoteDesc :: string
  localDesc :: string
  from_local :: "io_round list"
  from_remote :: "io_round list"

definition copy_result :: "relay_env \<Rightarrow> goroutine \<Rightarrow> (bool \<times> err) option" where
  "copy_result env g = (case g of Bg \<Rightarrow> myCopy (from_local env) | Fg \<Rightarrow> myCopy (from_remote env))"

text \<open>The line the goroutine logs once it holds the slot (lines 272-276 and 286-290).\<close>

definition report :: "relay_env \<Rightarrow> goroutine \<Rightarrow> bool \<times> err \<Rightarrow> log_line" where
  "report env g r =
     (case g of
        Bg \<Rightarrow> (if fst r \<and> snd r = EOF then ClientClosed (localDesc env)
               else logError (localDesc env) (remoteDesc env) (fst r) (snd r))
      | Fg \<Rightarrow> (if fst r \<and> snd r = EOF then InstanceClosed (remoteDesc env)
               else logError (remoteDesc env) (localDesc env) (fst r) (snd r)))"

record relay_state =
  firstErr :: "err list"
  pc :: "goroutine \<Rightarrow> gpc"
  trace :: "(goroutine \<times> event) list"

definition relay_init :: relay_state where
  "relay_init = \<lparr>firstErr = [], pc = (\<lambda>_. Copying), trace = []\<rparr>"

text \<open>
  One atomic step of goroutine \<open>g\<close>. A goroutine whose copy never returns stays at
  \<open>Copying\<close>; a finished one does nothing more.
\<close>

definition relay_step :: "relay_env \<Rightarrow> goroutine \<Rightarrow> relay_state \<Rightarrow> relay_state" where
  "relay_step env g s =
     (case pc s g of
        Copying \<Rightarrow>
          (case copy_result env g of
             None \<Rightarrow> s
           | Some r \<Rightarrow> s\<lparr>pc := (pc s)(g := AtSelect r)\<rparr>)
      | AtSelect r \<Rightarrow>
          (if length (firstErr s) < 1
           then s\<lparr>firstErr := firstErr s @ [snd r], pc := (pc s)(g := Claimed r)\<rparr>
           else s\<lparr>pc := (pc s)(g := Finished)\<rparr>)
      | Claimed r \<Rightarrow>
          s\<lparr>trace := trace s @ [(g, Log (report env g r))], pc := (pc s)(g := Reported)\<rparr>
      | Reported \<Rightarrow>
          s\<lparr>trace := trace s @ [(g, Close Remote)], pc := (pc s)(g := ClosedRemote)\<rparr>
      | ClosedRemote \<Rightarrow>
          s\<lparr>trace := trace s @ [(g, Close Local)], pc := (pc s)(g := Finished)\<rparr>
      | Finished \<Rightarrow> s)"

text \<open>An interleaving is the list of which goroutine moves next.\<close>

definition relay_run :: "relay_env \<Rightarrow> goroutine list \<Rightarrow> relay_state" where
  "relay_run env sched = foldl (\<lambda>s g. relay_step env g s) relay_init sched"

text \<open>What one goroutine did to the endpoints and the log.\<close>

definition done_by :: "goroutine \<Rightarrow> relay_state \<Rightarrow> event list" where
  "done_by g s = map snd (filter (\<lambda>x. fst x = g) (trace s))"

text \<open>
  \<open>copyThenClose\<close> returns when the caller's goroutine is finished; until then the call has
  not returned (\<open>None\<close>). Its result is what both goroutines did by then.
\<close>

definition copyThenClose :: "relay_env \<Rightarrow> goroutine list \<Rightarrow> event list option" where
  "copyThenClose env sched =
     (let s = relay_run env sched
      in if pc s Fg = Finished then Some (map snd (trace s)) else None)"

text \<open>How many steps a goroutine still has before it, at most, by where it stands.\<close>

definition steps_left :: "gpc \<Rightarrow> nat" where
  "steps_left p =
     (case p of Copying \<Rightarrow> 5 | AtSelect r \<Rightarrow> 4 | Claimed r \<Rightarrow> 3 | Reported \<Rightarrow> 2
      | ClosedRemote \<Rightarrow> 1 | Finished \<Rightarrow> 0)"

section \<open>The peer verifier\<close>

text \<open>
  A parsed certificate, as far as the verifier reads it: \<open>cert.Subject.CommonName\<close>, and
  the issuer's name for the chain check.
\<close>

record certificate =
  CommonName :: string
  Issuer :: string

text \<open>\<open>x509.VerifyOptions\<close>: the fields the chain check reads.\<close>

record verify_options =
  Roots :: "certificate list"
  Intermediates :: "certificate list"
  DNSName :: string

datatype verify_failure =
    NoCertificateToVerify
  | ParseCertificateError err
  | VerifyError err
  | WrongCommonName string string

text \<open>
  \<open>x509.ParseCertificate\<close> and \<open>Certificate.Verify\<close> belong to Go's library: they are
  parameters here. The closure of \<open>genVerifyPeerCertificateFunc\<close> (lines 243-262) takes
  \<open>rawCerts\<close>; its second argument \<open>verifiedChains\<close> is never read. The options it builds
  are \<open>x509.VerifyOptions{Roots: pool}\<close>: every other field has Go's zero value.
\<close>

definition genVerifyPeerCertificateFunc ::
  "('raw \<Rightarrow> err + certificate) \<Rightarrow> (verify_options \<Rightarrow> certificate \<Rightarrow> err option) \<Rightarrow>
   string \<Rightarrow> certificate list \<Rightarrow> 'raw list \<Rightarrow> verify_failure option" where
  "genVerifyPeerCertificateFunc parseCertificate verify instanceName pool rawCerts =
     (case rawCerts of
        [] \<Rightarrow> Some NoCertificateToVerify
      | raw0 # _ \<Rightarrow>
          (case parseCertificate raw0 of
             Inl e \<Rightarrow> Some (ParseCertificateError e)
           | Inr cert \<Rightarrow>
               (case verify \<lparr>Roots = pool, Intermediates = [], DNSName = []\<rparr> cert of
                  Some e \<Rightarrow> Some (VerifyError e)
                | None \<Rightarrow>
                    (if CommonName cert \<noteq> instanceName
                     then Some (WrongCommonName (CommonName cert) instanceName)
                     else None))))"

text \<open>
  A sample chain check to run the verifier on: a certificate is accepted when a root
  issued it, or an intermediate of the options did that a root issued.
\<close>

definition issued_by :: "certificate list \<Rightarrow> certificate \<Rightarrow> bool" where
  "issued_by cas c = (Issuer c \<in> set (map CommonName cas))"

definition sample_verify :: "verify_options \<Rightarrow> certificate \<Rightarrow> err option" where
  "sample_verify opts c =
     (if issued_by (Roots opts) c then None
      else if list_ex (\<lambda>i. CommonName i = Issuer c \<and> issued_by (Roots opts) i) (Intermediates opts)
      then None
      else Some (Err 0))"

definition sample_parse :: "certificate option \<Rightarrow> err + certificate" where
  "sample_parse raw = (case raw of None \<Rightarrow> Inl (Err 1) | Some c \<Rightarrow> Inr c)"

section \<open>The tunnel session: \<open>handleConn\<close>\<close>

text \<open>Durations are \<open>time.Duration\<close>: nanoseconds.\<close>

definition millisecond :: int where
  "millisecond = 1000000"

definition second :: int where
  "second = 1000 * millisecond"

definition keepAlivePeriod :: int where
  "keepAlivePeriod = 60 * second"

text \<open>
  The \<open>Client\<close> struct. \<open>CertSource\<close> is an interface of the environment: what its
  \<open>Cert\<close> method answers is part of \<open>session_env\<close> below.
\<close>

record client =
  RemoteAddr :: string
  LocalAddr :: string
  Instance :: string
  MaxConnections :: "64 word"
  connectionsCounter :: "64 word"

text \<open>
  What the environment answers to one session: the error of each call that can fail
  (\<open>None\<close> for \<open>nil\<close>), whether the accepted connection has the two keepalive methods
  (the type assertion of line 187), and the relay's inputs and interleaving.
\<close>

record session_env =
  cert_err :: "err option"
  dial_err :: "err option"
  conn_keepaliver :: bool
  keepalive_err :: "err option"
  keepalive_period_err :: "err option"
  handshake_err :: "err option"
  conn_local_addr :: string
  relay_from_local :: "io_round list"
  relay_from_remote :: "io_round list"
  relay_sched :: "goroutine list"

text \<open>Lines 187-195: the receiver of both calls is \<open>conn\<close>, the accepted connection.\<close>

definition keepalive_block :: "session_env \<Rightarrow> event list" where
  "keepalive_block env =
     (if conn_keepaliver env then
        (case keepalive_err env of
           Some e \<Rightarrow> [SetKeepAlive Local, Log (CouldntSetKeepAlive e)]
         | None \<Rightarrow>
             (case keepalive_period_err env of
                Some e \<Rightarrow>
                  [SetKeepAlive Local, SetKeepAlivePeriod Local keepAlivePeriod,
                   Log CouldntSetKeepAlivePeriod]
              | None \<Rightarrow> [SetKeepAlive Local, SetKeepAlivePeriod Local keepAlivePeriod]))
      else [Log KeepAliveNotSupported])"

text \<open>
  Lines 142-210: the body of \<open>handleConn\<close> between the atomic increment, whose result
  is \<open>active\<close>, and the deferred decrement. It gives the returned error (\<open>None\<close> for
  \<open>nil\<close>) and what was done to the endpoints and the log, in order; the whole is \<open>None\<close> when
  the relay, and so the call, does not return. \<open>secureConn.Close()\<close> closes the dialled
  connection that \<open>tls.Client\<close> wraps.
\<close>

definition handleConn_body ::
  "client \<Rightarrow> string \<Rightarrow> session_env \<Rightarrow> 64 word \<Rightarrow> (failure option \<times> event list) option" where
  "handleConn_body c instance env active =
     (if MaxConnections c > 0 \<and> active > MaxConnections c then
        Some (Some (ErrTooManyConnections (MaxConnections c)), [Close Local])
      else
        (case cert_err env of
           Some e \<Rightarrow> Some (Some (ErrCertSource e), [CertRequest instance])
         | None \<Rightarrow>
             (case dial_err env of
                Some e \<Rightarrow>
                  Some (Some (ErrConnect (RemoteAddr c) e),
                        [CertRequest instance, Dial (RemoteAddr c), Close Local])
              | None \<Rightarrow>
                  (case handshake_err env of
                     Some e \<Rightarrow>
                       Some (Some (ErrHandshake e),
                             [CertRequest instance, Dial (RemoteAddr c)] @ keepalive_block env
                             @ [Handshake, Close Remote])
                   | None \<Rightarrow>
                       (case copyThenClose
                               \<lparr>remoteDesc = ''remote connection'',
                                localDesc = ''local connection on '' @ conn_local_addr env,
                                from_local = relay_from_local env,
                                from_remote = relay_from_remote env\<rparr>
                               (relay_sched env) of
                          None \<Rightarrow> None
                        | Some evs \<Rightarrow>
                            Some (None,
                                  [CertRequest instance, Dial (RemoteAddr c)] @ keepalive_block env
                                  @ [Handshake] @ evs))))))"

text \<open>
  \<open>handleConn\<close> run with no other session in between: line 137 adds 1 and keeps the new
  value, line 140 defers the addition of \<open>^uint64(0)\<close>, which runs on every return.
\<close>

definition handleConn ::
  "client \<Rightarrow> string \<Rightarrow> session_env \<Rightarrow> (failure option \<times> event list \<times> client) option" where
  "handleConn c instance env =
     (let active = connectionsCounter c + 1;
          c1 = c\<lparr>connectionsCounter := active\<rparr>
      in case handleConn_body c1 instance env active of
           None \<Rightarrow> None
         | Some (r, evs) \<Rightarrow>
             Some (r, [AtomicAdd 1] @ evs @ [AtomicAdd (NOT 0)],
                   c1\<lparr>connectionsCounter := connectionsCounter c1 + NOT 0\<rparr>))"

subsection \<open>The two sockets at the dialing stage\<close>


record sockopts =
  keepalive :: bool
  keepalive_period :: int


text \<open>
  Lines 187-195 once more, now with the options of the socket the two calls are made on:
  \<open>conn\<close>, the accepted connection. The events are those of \<open>keepalive_block\<close>.
\<close>

definition setKeepAliver_block :: "session_env \<Rightarrow> sockopts \<Rightarrow> sockopts \<times> event list" where
  "setKeepAliver_block env conn =
     (if conn_keepaliver env then
        (case keepalive_err env of
           Some e \<Rightarrow> (conn, [SetKeepAlive Local, Log (CouldntSetKeepAlive e)])
         | None \<Rightarrow>
             (case keepalive_period_err env of
                Some e \<Rightarrow>
                  (conn\<lparr>keepalive := True\<rparr>,
                   [SetKeepAlive Local, SetKeepAlivePeriod Local keepAlivePeriod,
                    Log CouldntSetKeepAlivePeriod])
              | None \<Rightarrow>
                  (conn\<lparr>keepalive := True, keepalive_period := keepAlivePeriod\<rparr>,
                   [SetKeepAlive Local, SetKeepAlivePeriod Local keepAlivePeriod])))
      else (conn, [Log KeepAliveNotSupported]))"


subsection \<open>Sessions side by side\<close>

text \<open>
  \<open>Run\<close> starts one goroutine per accepted connection, and the only thing they share is
  \<open>connectionsCounter\<close>, which they touch by the two atomic additions alone. So a session
  is, to the others, a program of two atomic steps: enter (add 1, keep the result as
  \<open>active\<close>) and, once its body has returned, leave (add \<open>^uint64(0)\<close>).
\<close>

datatype session_pc =
    Waiting
  | InFlight "64 word"
  | Returned "failure option"

record proxy_state =
  cl :: client
  sessions :: "(session_env \<times> session_pc) list"
  history :: "(nat \<times> event) list"

definition proxy_init :: "client \<Rightarrow> session_env list \<Rightarrow> proxy_state" where
  "proxy_init c envs =
     \<lparr>cl = c\<lparr>connectionsCounter := 0\<rparr>, sessions = map (\<lambda>env. (env, Waiting)) envs, history = []\<rparr>"

definition proxy_step :: "nat \<Rightarrow> proxy_state \<Rightarrow> proxy_state" where
  "proxy_step i s =
     (if i < length (sessions s) then
        (case sessions s ! i of
           (env, Waiting) \<Rightarrow>
             (let active = connectionsCounter (cl s) + 1
              in s\<lparr>cl := (cl s)\<lparr>connectionsCounter := active\<rparr>,
                   sessions := (sessions s)[i := (env, InFlight active)],
                   history := history s @ [(i, AtomicAdd 1)]\<rparr>)
         | (env, InFlight active) \<Rightarrow>
             (case handleConn_body (cl s) (Instance (cl s)) env active of
                None \<Rightarrow> s
              | Some (r, evs) \<Rightarrow>
                  s\<lparr>cl := (cl s)\<lparr>connectionsCounter := connectionsCounter (cl s) + NOT 0\<rparr>,
                    sessions := (sessions s)[i := (env, Returned r)],
                    history := history s @ map (Pair i) evs @ [(i, AtomicAdd (NOT 0))]\<rparr>)
         | (env, Returned r) \<Rightarrow> s)
      else s)"

definition proxy_run :: "client \<Rightarrow> session_env list \<Rightarrow> nat list \<Rightarrow> proxy_state" where
  "proxy_run c envs sched = foldl (\<lambda>s i. proxy_step i s) (proxy_init c envs) sched"

text \<open>The sessions between their two atomic steps, and those of them that were let in.\<close>

definition in_flight :: "session_env \<times> session_pc \<Rightarrow> bool" where
  "in_flight x = (case snd x of InFlight a \<Rightarrow> True | _ \<Rightarrow> False)"

definition admitted :: "client \<Rightarrow> session_env \<times> session_pc \<Rightarrow> bool" where
  "admitted c x =
     (case snd x of
        InFlight a \<Rightarrow> \<not> (MaxConnections c > 0 \<and> a > MaxConnections c)
      | _ \<Rightarrow> False)"

definition count_where :: "('a \<Rightarrow> bool) \<Rightarrow> 'a list \<Rightarrow> nat" where
  "count_where P xs = length (filter P xs)"

text \<open>The atomic additions one session made, in order.\<close>

definition adds_in :: "nat \<Rightarrow> (nat \<times> event) list \<Rightarrow> 64 word list" where
  "adds_in i h =
     concat (map (\<lambda>x. case snd x of AtomicAdd d \<Rightarrow> (if fst x = i then [d] else []) | _ \<Rightarrow> []) h)"

definition adds_of :: "nat \<Rightarrow> proxy_state \<Rightarrow> 64 word list" where
  "adds_of i s = adds_in i (history s)"

section \<open>The acceptor: \<open>listen\<close>\<close>

text \<open>
  What \<open>l.Accept()\<close> answers: a connection (and whether it is a \<open>*net.TCPConn\<close>), an
  error that is a \<open>net.Error\<close> with \<open>Temporary()\<close> true, together with the time the call
  took, or any other error.
\<close>

datatype accept_result =
    AcceptConn nat bool
  | AcceptTemporary err int
  | AcceptOther err

record listen_env =
  listen_err :: "err option"
  accepts :: "accept_result list"

text \<open>The \<open>Conn\<close> struct sent on \<open>connSrc\<close>.\<close>

record conn =
  conn_id :: nat
  conn_instance :: string

text \<open>
  The loop of lines 105-133: the returned error (\<open>None\<close> while the loop is still
  accepting, since \<open>listen\<close> never returns \<open>nil\<close>), what it did, and the connections it
  sent on \<open>connSrc\<close>.
\<close>

fun accept_loop :: "client \<Rightarrow> accept_result list \<Rightarrow> failure option \<times> event list \<times> conn list" where
  "accept_loop c [] = (None, [], [])"
| "accept_loop c (AcceptTemporary e elapsed # rest) =
     (let d = 10 * millisecond - elapsed
      in case accept_loop c rest of
           (r, evs, cs) \<Rightarrow> (r, (if d > 0 then [Sleep d] else []) @ evs, cs))"
| "accept_loop c (AcceptOther e # rest) =
     (Some (ErrAccept (LocalAddr c) e), [CloseListener], [])"
| "accept_loop c (AcceptConn k tcp # rest) =
     (case accept_loop c rest of
        (r, evs, cs) \<Rightarrow>
          (r,
           [Log (NewConnection (LocalAddr c))]
           @ (if tcp then [SetKeepAlive Local, SetKeepAlivePeriod Local (60 * second)] else [])
           @ evs,
           \<lparr>conn_id = k, conn_instance = Instance c\<rparr> # cs))"

definition listen :: "client \<Rightarrow> listen_env \<Rightarrow> failure option \<times> event list \<times> conn list" where
  "listen c env =
     (case listen_err env of
        Some e \<Rightarrow> (Some (ErrNetListen e), [], [])
      | None \<Rightarrow>
          (case accept_loop c (accepts env) of
             (r, evs, cs) \<Rightarrow> (r, Log (Listening (LocalAddr c) (Instance c)) # evs, cs)))"

section \<open>Draining: \<open>Shutdown\<close>\<close>

text \<open>
  \<open>Shutdown\<close> reads the counter with \<open>atomic.LoadUint64\<close> once per tick (line 223) and
  once more after the loop (line 232); sessions run meanwhile, so each load is an answer
  of the environment. Time is counted from the call: the ticker fires at the multiples of
  100 ms, \<open>term\<close> at \<open>timeout\<close> (at once for a timeout that is not positive). Where both
  channels are ready at the same instant Go's \<open>select\<close> picks one at random:
  \<open>tick_first\<close> is that pick.
\<close>

record shutdown_env =
  poll :: "nat \<Rightarrow> 64 word"
  final_load :: "64 word"
  tick_first :: bool

record shutdown_outcome =
  sd_result :: "failure option"
  sd_polls :: nat
  sd_at :: int
  sd_bailed :: bool

definition tick_period :: int where
  "tick_period = 100 * millisecond"

text \<open>
  The loop of lines 220-230 after \<open>k\<close> ticks were received: the number of polls made,
  the time at which the loop was left, and whether it was left by the tick branch.
\<close>

function shutdown_loop :: "int \<Rightarrow> shutdown_env \<Rightarrow> nat \<Rightarrow> nat \<times> int \<times> bool" where
  "shutdown_loop timeout env k =
     (let t = int (Suc k) * tick_period
      in if t < timeout \<or> (t = timeout \<and> tick_first env) then
           (if poll env (Suc k) > 0 then shutdown_loop timeout env (Suc k)
            else (Suc k, t, True))
         else (k, max timeout 0, False))"
  by pat_completeness auto
termination
  by (relation "measure (\<lambda>(timeout, env, k). nat (timeout div tick_period) + 1 - k)")
     (auto simp: tick_period_def millisecond_def)

definition Shutdown :: "int \<Rightarrow> shutdown_env \<Rightarrow> shutdown_outcome" where
  "Shutdown timeout env =
     (case shutdown_loop timeout env 0 of
        (k, t, bailed) \<Rightarrow>
          (let active = final_load env
           in \<lparr>sd_result = (if active = 0 then None else Some (ErrActiveConnections active timeout)),
               sd_polls = k, sd_at = t, sd_bailed = bailed\<rparr>))"

section \<open>The lifecycle: \<open>Run\<close>\<close>

text \<open>
  What the \<open>select\<close> of \<open>Run\<close> (lines 75-93) takes, one entry per pass of its loop.
\<close>

datatype select_outcome = CtxDone | Recv conn

record run_outcome =
  returned :: "failure option option"
  spawned :: "conn list"
  run_log :: "event list"

text \<open>
  The loop of \<open>Run\<close>: it returns from the \<open>ctx.Done()\<close> branch alone; a received
  connection starts a \<open>handleConn\<close> goroutine and the loop goes on. When the outcomes run
  out the loop is blocked in \<open>select\<close>: \<open>Run\<close> has not returned.
\<close>

fun run_loop :: "shutdown_env \<Rightarrow> select_outcome list \<Rightarrow> run_outcome" where
  "run_loop senv [] = \<lparr>returned = None, spawned = [], run_log = []\<rparr>"
| "run_loop senv (CtxDone # rest) =
     (let termTimeout = second * 1
      in \<lparr>returned =
            Some (case sd_result (Shutdown termTimeout senv) of
                    Some e \<Rightarrow> Some (ErrDuringShutdown e)
                  | None \<Rightarrow> None),
          spawned = [],
          run_log = [Log (ContextCancelled termTimeout)]\<rparr>)"
| "run_loop senv (Recv lc # rest) =
     (let out = run_loop senv rest in out\<lparr>spawned := lc # spawned out\<rparr>)"

text \<open>
  \<open>Run\<close>: the goroutine of lines 68-72 runs \<open>listen\<close> and logs its error; the loop
  receives the connections \<open>listen\<close> sent, and the context is cancelled after
  \<open>cancel_after\<close> of them were received, or never.
\<close>

record run_env =
  renv_listen :: listen_env
  cancel_after :: "nat option"
  renv_shutdown :: shutdown_env

definition Run :: "client \<Rightarrow> run_env \<Rightarrow> run_outcome" where
  "Run c env =
     (case listen c (renv_listen env) of
        (lr, levs, conns) \<Rightarrow>
          (let outcomes =
                 (case cancel_after env of
                    None \<Rightarrow> map Recv conns
                  | Some n \<Rightarrow> map Recv (take n conns) @ [CtxDone]);
               out = run_loop (renv_shutdown env) outcomes
           in out\<lparr>run_log :=
                    (case lr of Some e \<Rightarrow> [Log (ListenError e)] | None \<Rightarrow> []) @ run_log out\<rparr>))"

section \<open>Invariants and sample inputs\<close>

text \<open>
  The invariant of the relay: either the slot of \<open>firstErr\<close> is free and nothing was
  logged or closed yet, or one goroutine \<open>w\<close> holds it and is somewhere along its cleanup,
  while the other one has done nothing.
\<close>

definition relay_inv :: "relay_env \<Rightarrow> relay_state \<Rightarrow> bool" where
  "relay_inv env s \<longleftrightarrow>
     (firstErr s = [] \<and> trace s = [] \<and>
      (\<forall>g. pc s g = Copying \<or> (\<exists>r. pc s g = AtSelect r \<and> copy_result env g = Some r)))
   \<or> (\<exists>w l r. l \<noteq> w \<and> copy_result env w = Some r \<and> firstErr s = [snd r] \<and>
         (pc s l = Copying \<or> (\<exists>r'. pc s l = AtSelect r') \<or> pc s l = Finished) \<and>
         ((pc s w = Claimed r \<and> trace s = [])
          \<or> (pc s w = Reported \<and> trace s = [(w, Log (report env w r))])
          \<or> (pc s w = ClosedRemote \<and> trace s = [(w, Log (report env w r)), (w, Close Remote)])
          \<or> (pc s w = Finished \<and>
              trace s = [(w, Log (report env w r)), (w, Close Remote), (w, Close Local)])))"

text \<open>
  The invariant of the sessions: the counter is the number of sessions in flight, and for
  every \<open>k\<close> at most \<open>k\<close> of them hold a value of \<open>active\<close> that is at most \<open>k\<close>.
\<close>

definition flying_le :: "nat \<Rightarrow> session_env \<times> session_pc \<Rightarrow> bool" where
  "flying_le k x = (case snd x of InFlight a \<Rightarrow> unat a \<le> k | _ \<Rightarrow> False)"

definition proxy_inv :: "client \<Rightarrow> nat \<Rightarrow> proxy_state \<Rightarrow> bool" where
  "proxy_inv c n s \<longleftrightarrow>
     length (sessions s) = n \<and>
     MaxConnections (cl s) = MaxConnections c \<and>
     unat (connectionsCounter (cl s)) = count_where in_flight (sessions s) \<and>
     (\<forall>k. count_where (flying_le k) (sessions s) \<le> k)"

text \<open>The sessions in flight whose check of line 142 fails: they are about to be turned away.\<close>

definition refused :: "client \<Rightarrow> session_env \<times> session_pc \<Rightarrow> bool" where
  "refused c x =
     (case snd x of
        InFlight a \<Rightarrow> MaxConnections c > 0 \<and> a > MaxConnections c
      | _ \<Rightarrow> False)"

text \<open>Sample inputs, for running the definitions.\<close>

definition sample_relay :: relay_env where
  "sample_relay =
     \<lparr>remoteDesc = ''remote'', localDesc = ''local'',
      from_local = [\<lparr>rd_n = 0, rd_err = Some (Err 3), wr_err = None\<rparr>],
      from_remote = [\<lparr>rd_n = 5, rd_err = None, wr_err = None\<rparr>,
                     \<lparr>rd_n = 0, rd_err = Some EOF, wr_err = None\<rparr>]\<rparr>"

definition sample_client :: client where
  "sample_client =
     \<lparr>RemoteAddr = ''db:3306'', LocalAddr = ''127.0.0.1:3307'', Instance = ''db'',
      MaxConnections = 1, connectionsCounter = 0\<rparr>"

definition sample_session :: session_env where
  "sample_session =
     \<lparr>cert_err = None, dial_err = None, conn_keepaliver = True, keepalive_err = None,
      keepalive_period_err = None, handshake_err = None, conn_local_addr = ''127.0.0.1:3307'',
      relay_from_local = [\<lparr>rd_n = 0, rd_err = Some (Err 3), wr_err = None\<rparr>],
      relay_from_remote = [\<lparr>rd_n = 5, rd_err = None, wr_err = None\<rparr>,
                           \<lparr>rd_n = 0, rd_err = Some EOF, wr_err = None\<rparr>],
      relay_sched = [Fg, Bg, Fg, Fg, Bg, Fg, Fg]\<rparr>"

text \<open>What the atomic additions of one session must read, by where the session stands.\<close>

definition adds_expected :: "session_pc \<Rightarrow> 64 word list" where
  "adds_expected p = (case p of Waiting \<Rightarrow> [] | InFlight a \<Rightarrow> [1] | Returned r \<Rightarrow> [1, NOT 0])"

definition adds_inv :: "proxy_state \<Rightarrow> bool" where
  "adds_inv s \<longleftrightarrow> (\<forall>i < length (sessions s). adds_of i s = adds_expected (snd (sessions s ! i)))"

text \<open>An answer of \<open>Accept\<close> after which the loop of \<open>listen\<close> goes on.\<close>

definition goes_on :: "accept_result \<Rightarrow> bool" where
  "goes_on a = (case a of AcceptOther e \<Rightarrow> False | _ \<Rightarrow> True)"

text \<open>More sample inputs: certificates, listeners and drains.\<close>

definition serverName :: string where
  "serverName = ''MySQL_Server_5.7.32_Auto_Generated_Server_Certificate''"

definition sample_root :: certificate where
  "sample_root = \<lparr>CommonName = ''Root CA'', Issuer = ''Root CA''\<rparr>"

definition sample_intermediate :: certificate where
  "sample_intermediate = \<lparr>CommonName = ''Intermediate CA'', Issuer = ''Root CA''\<rparr>"

definition sample_leaf :: certificate where
  "sample_leaf = \<lparr>CommonName = serverName, Issuer = ''Root CA''\<rparr>"

definition sample_leaf_lowercase :: certificate where
  "sample_leaf_lowercase =
     \<lparr>CommonName = ''mysql_server_5.7.32_auto_generated_server_certificate'', Issuer = ''Root CA''\<rparr>"

definition sample_leaf_deep :: certificate where
  "sample_leaf_deep = \<lparr>CommonName = serverName, Issuer = ''Intermediate CA''\<rparr>"

definition sample_bind_failure :: listen_env where
  "sample_bind_failure = \<lparr>listen_err = Some (Err 98), accepts = []\<rparr>"

definition sample_accept_failure :: listen_env where
  "sample_accept_failure =
     \<lparr>listen_err = None,
      accepts = [AcceptConn 0 True, AcceptTemporary (Err 24) (3 * millisecond), AcceptOther (Err 9)]\<rparr>"

definition sample_shutdown :: shutdown_env where
  "sample_shutdown = \<lparr>poll = (\<lambda>k. 0), final_load = 3, tick_first = False\<rparr>"

definition sample_drained :: shutdown_env where
  "sample_drained = \<lparr>poll = (\<lambda>k. if k < 3 then 2 else 0), final_load = 0, tick_first = False\<rparr>"


section \<open>Auxiliary lemmas\<close>

lemma myCopy_quiet_prefix:
  "list_all quiet pre \<Longrightarrow> myCopy (pre @ rest) = myCopy rest"
  by (induction pre) (auto simp: quiet_def split: option.splits)

lemma goroutine_other: "l \<noteq> w \<Longrightarrow> g = l \<or> g = (w::goroutine)"
  by (cases l; cases w; cases g) auto

lemma relay_inv_init: "relay_inv env relay_init"
  by (simp add: relay_inv_def relay_init_def)

lemma relay_inv_step:
  assumes "relay_inv env s"
  shows "relay_inv env (relay_step env g s)"
proof -
  from assms consider
    (free) "firstErr s = []" "trace s = []"
      "\<forall>g. pc s g = Copying \<or> (\<exists>r. pc s g = AtSelect r \<and> copy_result env g = Some r)"
  | (taken) w l r where "l \<noteq> w" "copy_result env w = Some r" "firstErr s = [snd r]"
      "pc s l = Copying \<or> (\<exists>r'. pc s l = AtSelect r') \<or> pc s l = Finished"
      "(pc s w = Claimed r \<and> trace s = [])
          \<or> (pc s w = Reported \<and> trace s = [(w, Log (report env w r))])
          \<or> (pc s w = ClosedRemote \<and> trace s = [(w, Log (report env w r)), (w, Close Remote)])
          \<or> (pc s w = Finished \<and>
              trace s = [(w, Log (report env w r)), (w, Close Remote), (w, Close Local)])"
    unfolding relay_inv_def by blast
  then show ?thesis
  proof cases
    case free
    obtain h where h: "h \<noteq> g" by (cases g) auto
    from free(3) have "pc s g = Copying \<or> (\<exists>r. pc s g = AtSelect r \<and> copy_result env g = Some r)"
      by blast
    then show ?thesis
    proof
      assume "pc s g = Copying"
      with free show ?thesis
        by (auto simp: relay_inv_def relay_step_def split: option.splits)
    next
      assume "\<exists>r. pc s g = AtSelect r \<and> copy_result env g = Some r"
      then obtain r where r: "pc s g = AtSelect r" "copy_result env g = Some r" by blast
      have "pc s h = Copying \<or> (\<exists>r'. pc s h = AtSelect r')" using free(3) by blast
      then show ?thesis
        unfolding relay_inv_def
        apply (intro disjI2)
        apply (rule exI[of _ g], rule exI[of _ h], rule exI[of _ r])
        using free r h by (auto simp: relay_step_def)
    qed
  next
    case taken
    have gl: "g = l \<or> g = w" using taken(1) by (rule goroutine_other)
    then show ?thesis
    proof
      assume g: "g = l"
      show ?thesis
        unfolding relay_inv_def
        apply (intro disjI2)
        apply (rule exI[of _ w], rule exI[of _ l], rule exI[of _ r])
        using taken g by (auto simp: relay_step_def split: option.splits)
    next
      assume g: "g = w"
      show ?thesis
        unfolding relay_inv_def
        apply (intro disjI2)
        apply (rule exI[of _ w], rule exI[of _ l], rule exI[of _ r])
        using taken g by (auto simp: relay_step_def split: option.splits)
    qed
  qed
qed

lemma relay_inv_run: "relay_inv env (relay_run env sched)"
proof -
  have "relay_inv env s \<Longrightarrow> relay_inv env (foldl (\<lambda>s g. relay_step env g s) s sched)" for s
    by (induction sched arbitrary: s) (simp_all add: relay_inv_step)
  then show ?thesis by (simp add: relay_run_def relay_inv_init)
qed

lemma sample_run:
  "relay_run sample_relay [Fg, Bg, Fg, Fg, Bg, Fg, Fg] =
    \<lparr>firstErr = [EOF], pc = (\<lambda>_. Finished),
     trace = [(Fg, Log (InstanceClosed ''remote'')), (Fg, Close Remote), (Fg, Close Local)]\<rparr>"
  apply (simp add: relay_run_def relay_init_def relay_step_def sample_relay_def copy_result_def report_def fun_upd_def)
  apply (rule ext)
  apply (case_tac x; simp)
  done

lemma count_where_le: "count_where P xs \<le> length xs"
  by (simp add: count_where_def)

lemma count_where_update:
  "i < length xs \<Longrightarrow>
   count_where P (xs[i := y]) + (if P (xs ! i) then 1 else 0)
     = count_where P xs + (if P y then 1 else 0)"
proof (induction xs arbitrary: i)
  case Nil
  then show ?case by simp
next
  case (Cons x xs)
  then show ?case
    by (cases i) (auto simp: count_where_def)
qed

lemma count_where_lt:
  "i < length xs \<Longrightarrow> \<not> P (xs ! i) \<Longrightarrow> count_where P xs < length xs"
  unfolding count_where_def by (rule length_filter_less[of "xs ! i"]) simp_all

lemma count_where_mono:
  "(\<And>x. P x \<Longrightarrow> Q x) \<Longrightarrow> count_where P xs \<le> count_where Q xs"
  by (induction xs) (auto simp: count_where_def)

lemma proxy_inv_init:
  "proxy_inv c (length envs) (proxy_init c envs)"
  by (simp add: proxy_inv_def proxy_init_def count_where_def in_flight_def flying_le_def o_def)

lemma proxy_inv_step:
  assumes inv: "proxy_inv c n s" and n: "n < 2 ^ 64"
  shows "proxy_inv c n (proxy_step i s)"
proof (cases "i < length (sessions s)")
  case False
  then show ?thesis using inv by (simp add: proxy_step_def)
next
  case True
  obtain env p where ep: "sessions s ! i = (env, p)" by (cases "sessions s ! i")
  from inv have len: "length (sessions s) = n"
    and mx: "MaxConnections (cl s) = MaxConnections c"
    and cnt: "unat (connectionsCounter (cl s)) = count_where in_flight (sessions s)"
    and fl: "\<And>k. count_where (flying_le k) (sessions s) \<le> k"
    by (auto simp: proxy_inv_def)
  show ?thesis
  proof (cases p)
    case Waiting
    let ?a = "connectionsCounter (cl s) + 1"
    let ?xs = "(sessions s)[i := (env, InFlight ?a)]"
    have nf: "\<not> in_flight (sessions s ! i)" using ep Waiting by (simp add: in_flight_def)
    have lt: "count_where in_flight (sessions s) < n"
      using count_where_lt[of i "sessions s" in_flight, OF True nf] len by simp
    have ua: "unat ?a = count_where in_flight (sessions s) + 1"
      using lt n cnt by (simp add: unat_word_ariths) 
    have st: "proxy_step i s = s\<lparr>cl := (cl s)\<lparr>connectionsCounter := ?a\<rparr>,
                   sessions := ?xs, history := history s @ [(i, AtomicAdd 1)]\<rparr>"
      using True ep Waiting by (simp add: proxy_step_def Let_def)
    have c1: "count_where in_flight ?xs = count_where in_flight (sessions s) + 1"
      using count_where_update[OF True, of in_flight "(env, InFlight ?a)"] nf
      by (simp add: in_flight_def)
    have c2: "count_where (flying_le k) ?xs \<le> k" for k
    proof (cases "unat ?a \<le> k")
      case True
      have "count_where (flying_le k) ?xs \<le> count_where in_flight ?xs"
        by (rule count_where_mono) (auto simp: flying_le_def in_flight_def split: session_pc.splits)
      then show ?thesis using c1 ua True by simp
    next
      case False
      have "\<not> flying_le k (sessions s ! i)" using ep Waiting by (simp add: flying_le_def)
      then have "count_where (flying_le k) ?xs = count_where (flying_le k) (sessions s)"
        using count_where_update[OF \<open>i < length (sessions s)\<close>, of "flying_le k" "(env, InFlight ?a)"] False
        by (simp add: flying_le_def)
      then show ?thesis using fl by simp
    qed
    show ?thesis
      unfolding st proxy_inv_def using len mx ua c1 c2 by simp
  next
    case (InFlight a)
    show ?thesis
    proof (cases "handleConn_body (cl s) (Instance (cl s)) env a")
      case None
      then show ?thesis using True ep InFlight inv by (simp add: proxy_step_def)
    next
      case (Some re)
      obtain r evs where re: "re = (r, evs)" by (cases re)
      let ?xs = "(sessions s)[i := (env, Returned r)]"
      have st: "proxy_step i s =
            s\<lparr>cl := (cl s)\<lparr>connectionsCounter := connectionsCounter (cl s) + NOT 0\<rparr>,
              sessions := ?xs,
              history := history s @ map (Pair i) evs @ [(i, AtomicAdd (NOT 0))]\<rparr>"
        using True ep InFlight Some re by (simp add: proxy_step_def)
      have isf: "in_flight (sessions s ! i)" using ep InFlight by (simp add: in_flight_def)
      have c1: "count_where in_flight ?xs + 1 = count_where in_flight (sessions s)"
        using count_where_update[OF True, of in_flight "(env, Returned r)"] isf
        by (simp add: in_flight_def)
      then have pos: "unat (connectionsCounter (cl s)) \<noteq> 0" using cnt by simp
      have ua: "unat (connectionsCounter (cl s) + NOT 0) = count_where in_flight ?xs"
      proof -
        have "connectionsCounter (cl s) + NOT 0 = connectionsCounter (cl s) - 1" by simp
        moreover have "unat (connectionsCounter (cl s) - 1) = unat (connectionsCounter (cl s)) - 1"
          using pos by (simp add: unat_minus_one unat_eq_zero)
        ultimately show ?thesis using cnt c1 by simp
      qed
      have c2: "count_where (flying_le k) ?xs \<le> k" for k
      proof -
        have "count_where (flying_le k) ?xs \<le> count_where (flying_le k) (sessions s)"
          using count_where_update[OF True, of "flying_le k" "(env, Returned r)"]
          by (simp add: flying_le_def split: if_splits)
        then show ?thesis using fl[of k] by simp
      qed
      show ?thesis
        unfolding st proxy_inv_def using len mx ua c2 by simp
    qed
  next
    case (Returned r)
    then show ?thesis using True ep inv by (simp add: proxy_step_def)
  qed
qed

lemma proxy_inv_fold:
  assumes "n < 2 ^ 64"
  shows "proxy_inv c n s \<Longrightarrow> proxy_inv c n (foldl (\<lambda>s i. proxy_step i s) s sched)"
proof (induction sched arbitrary: s)
  case Nil
  then show ?case by simp
next
  case (Cons i sched)
  have "proxy_inv c n (proxy_step i s)" using Cons.prems assms by (rule proxy_inv_step)
  then show ?case using Cons.IH by simp
qed

lemma proxy_inv_run:
  assumes "length envs < 2 ^ 64"
  shows "proxy_inv c (length envs) (proxy_run c envs sched)"
  unfolding proxy_run_def using assms proxy_inv_init by (rule proxy_inv_fold)

lemma count_where_split:
  "count_where in_flight xs = count_where (admitted c) xs + count_where (refused c) xs"
  by (induction xs)
     (auto simp: count_where_def in_flight_def admitted_def refused_def split: session_pc.splits)

lemma sample_two_enter:
  "proxy_run sample_client [sample_session, sample_session] [0, 1] =
     \<lparr>cl = sample_client\<lparr>connectionsCounter := 2\<rparr>,
      sessions = [(sample_session, InFlight 1), (sample_session, InFlight 2)],
      history = [(0, AtomicAdd 1), (1, AtomicAdd 1)]\<rparr>"
  by (simp add: proxy_run_def proxy_init_def proxy_step_def sample_client_def)

lemma relay_trace_events:
  assumes "x \<in> set (trace (relay_run env sched))"
  shows "(\<exists>l. snd x = Log l) \<or> (\<exists>e. snd x = Close e)"
proof -
  have "relay_inv env (relay_run env sched)" by (rule relay_inv_run)
  then show ?thesis using assms unfolding relay_inv_def by auto
qed

lemma copyThenClose_no_adds:
  assumes "copyThenClose env sched = Some evs"
  shows "AtomicAdd d \<notin> set evs"
proof
  assume "AtomicAdd d \<in> set evs"
  moreover have "evs = map snd (trace (relay_run env sched))"
    using assms by (simp add: copyThenClose_def Let_def split: if_splits)
  ultimately obtain x where "x \<in> set (trace (relay_run env sched))" "snd x = AtomicAdd d"
    by auto
  then show False using relay_trace_events[of x env sched] by auto
qed

lemma keepalive_block_no_adds: "AtomicAdd d \<notin> set (keepalive_block env)"
  by (simp add: keepalive_block_def split: option.splits)

lemma handleConn_body_no_adds:
  "handleConn_body c inst env a = Some (r, evs) \<Longrightarrow> AtomicAdd d \<notin> set evs"
  by (auto simp: handleConn_body_def keepalive_block_no_adds
           split: if_splits option.splits dest: copyThenClose_no_adds)

lemma adds_in_append: "adds_in i (h @ h') = adds_in i h @ adds_in i h'"
  by (simp add: adds_in_def)

lemma adds_in_single: "adds_in i [(j, AtomicAdd d)] = (if j = i then [d] else [])"
  by (simp add: adds_in_def)

lemma adds_in_events:
  "(\<And>d. AtomicAdd d \<notin> set evs) \<Longrightarrow> adds_in i (map (Pair j) evs) = []"
  by (induction evs) (auto simp: adds_in_def split: event.splits)

lemma adds_inv_init: "adds_inv (proxy_init c envs)"
  by (simp add: adds_inv_def proxy_init_def adds_of_def adds_in_def adds_expected_def)

lemma adds_inv_step:
  assumes inv: "adds_inv s"
  shows "adds_inv (proxy_step j s)"
proof (cases "j < length (sessions s)")
  case False
  then show ?thesis using inv by (simp add: proxy_step_def)
next
  case True
  obtain env p where ep: "sessions s ! j = (env, p)" by (cases "sessions s ! j")
  show ?thesis
  proof (cases p)
    case Waiting
    then show ?thesis
      using True ep inv
      by (auto simp: proxy_step_def adds_inv_def adds_of_def adds_in_append adds_in_single
            adds_expected_def Let_def nth_list_update)
  next
    case (InFlight a)
    show ?thesis
    proof (cases "handleConn_body (cl s) (Instance (cl s)) env a")
      case None
      then show ?thesis using True ep InFlight inv by (simp add: proxy_step_def)
    next
      case (Some re)
      obtain r evs where re: "re = (r, evs)" by (cases re)
      have na: "\<And>d. AtomicAdd d \<notin> set evs"
        using Some re by (auto dest: handleConn_body_no_adds)
      show ?thesis
        using True ep InFlight Some re inv
        by (auto simp: proxy_step_def adds_inv_def adds_of_def adds_in_append adds_in_single
              adds_in_events[OF na] adds_expected_def nth_list_update)
    qed
  next
    case (Returned r)
    then show ?thesis using True ep inv by (simp add: proxy_step_def)
  qed
qed

lemma adds_inv_fold:
  "adds_inv s \<Longrightarrow> adds_inv (foldl (\<lambda>s i. proxy_step i s) s sched)"
  by (induction sched arbitrary: s) (simp_all add: adds_inv_step)

lemma proxy_step_length: "length (sessions (proxy_step i s)) = length (sessions s)"
  by (auto simp: proxy_step_def Let_def split: prod.splits session_pc.splits option.splits)

lemma proxy_fold_length:
  "length (sessions (foldl (\<lambda>s i. proxy_step i s) s sched)) = length (sessions s)"
  by (induction sched arbitrary: s) (simp_all add: proxy_step_length)

lemma proxy_run_length: "length (sessions (proxy_run c envs sched)) = length envs"
  by (simp add: proxy_run_def proxy_fold_length) (simp add: proxy_init_def)

lemma sample_denied:
  "proxy_run sample_client [sample_session, sample_session] [0, 1, 1] =
     \<lparr>cl = sample_client\<lparr>connectionsCounter := 1\<rparr>,
      sessions = [(sample_session, InFlight 1),
                  (sample_session, Returned (Some (ErrTooManyConnections 1)))],
      history = [(0, AtomicAdd 1), (1, AtomicAdd 1), (1, Close Local), (1, AtomicAdd (NOT 0))]\<rparr>"
  by (simp add: proxy_run_def proxy_init_def proxy_step_def sample_client_def handleConn_body_def
        word_less_nat_alt)

lemma accept_loop_fatal:
  "list_all goes_on pre \<Longrightarrow>
   fst (accept_loop c (pre @ AcceptOther e # rest)) = Some (ErrAccept (LocalAddr c) e)
   \<and> fst (snd (accept_loop c (pre @ AcceptOther e # rest))) \<noteq> []
   \<and> last (fst (snd (accept_loop c (pre @ AcceptOther e # rest)))) = CloseListener"
proof (induction pre)
  case Nil
  then show ?case by simp
next
  case (Cons a pre)
  then show ?case
    by (cases a) (auto simp: goes_on_def Let_def split: prod.splits)
qed

lemma run_loop_recv:
  "returned (run_loop senv (map Recv cs @ rest)) = returned (run_loop senv rest)"
  by (induction cs) (simp_all add: Let_def)

lemma run_loop_log:
  "run_log (run_loop senv (map Recv cs @ rest)) = run_log (run_loop senv rest)"
  by (induction cs) (simp_all add: Let_def)

lemma Run_returned:
  "returned (Run c env) =
     (case cancel_after env of
        None \<Rightarrow> None
      | Some n \<Rightarrow>
          Some (case sd_result (Shutdown second (renv_shutdown env)) of
                  None \<Rightarrow> None
                | Some f \<Rightarrow> Some (ErrDuringShutdown f)))"
proof -
  obtain lr levs conns where l: "listen c (renv_listen env) = (lr, levs, conns)"
    by (cases "listen c (renv_listen env)") auto
  show ?thesis
  proof (cases "cancel_after env")
    case None
    then show ?thesis
      using l run_loop_recv[of "renv_shutdown env" conns "[]"] by (simp add: Run_def Let_def)
  next
    case (Some n)
    then show ?thesis
      using l run_loop_recv[of "renv_shutdown env" "take n conns" "[CtxDone]"]
      by (simp add: Run_def Let_def)
  qed
qed

lemma tick_period_pos: "0 < tick_period"
  by (simp add: tick_period_def millisecond_def)

lemma shutdown_loop_props:
  "shutdown_loop timeout env k = (k', t, b) \<Longrightarrow>
     k \<le> k'
   \<and> (\<forall>j. k < j \<and> j < k' \<longrightarrow> poll env j > 0)
   \<and> (b \<longrightarrow> k < k' \<and> poll env k' = 0 \<and> t = int k' * tick_period \<and> t \<le> timeout)
   \<and> (\<not> b \<longrightarrow> (k < k' \<longrightarrow> poll env k' > 0) \<and> t = max timeout 0
              \<and> (k < k' \<longrightarrow> int k' * tick_period \<le> timeout)
              \<and> timeout \<le> int (Suc k') * tick_period)"
proof (induction timeout env k arbitrary: k' t b rule: shutdown_loop.induct)
  case (1 timeout env k)
  let ?t = "int (Suc k) * tick_period"
  show ?case
  proof (cases "?t < timeout \<or> (?t = timeout \<and> tick_first env)")
    case False
    with "1.prems" have "k' = k" "t = max timeout 0" "\<not> b"
      by (auto simp: shutdown_loop.simps[of timeout env k] Let_def)
    with False show ?thesis by auto
  next
    case True
    show ?thesis
    proof (cases "poll env (Suc k) > 0")
      case False
      with True "1.prems" have "k' = Suc k" "t = ?t" "b"
        by (auto simp: shutdown_loop.simps[of timeout env k] Let_def)
      moreover have "poll env (Suc k) = 0" using False by (simp add: word_greater_zero_iff)
      ultimately show ?thesis using True by auto
    next
      case pos: True
      with True "1.prems" have rec: "shutdown_loop timeout env (Suc k) = (k', t, b)"
        by (auto simp: shutdown_loop.simps[of timeout env k] Let_def)
      have ih: "Suc k \<le> k'
   \<and> (\<forall>j. Suc k < j \<and> j < k' \<longrightarrow> poll env j > 0)
   \<and> (b \<longrightarrow> Suc k < k' \<and> poll env k' = 0 \<and> t = int k' * tick_period \<and> t \<le> timeout)
   \<and> (\<not> b \<longrightarrow> (Suc k < k' \<longrightarrow> poll env k' > 0) \<and> t = max timeout 0
              \<and> (Suc k < k' \<longrightarrow> int k' * tick_period \<le> timeout)
              \<and> timeout \<le> int (Suc k') * tick_period)"
        using "1.IH"[OF refl True pos rec] .
      have step: "\<And>j. k < j \<Longrightarrow> j < k' \<Longrightarrow> poll env j > 0"
      proof -
        fix j assume "k < j" "j < k'"
        then have "j = Suc k \<or> (Suc k < j \<and> j < k')" by auto
        then show "poll env j > 0" using pos ih by blast
      qed
      have last: "\<not> b \<Longrightarrow> k < k' \<Longrightarrow> poll env k' > 0 \<and> int k' * tick_period \<le> timeout"
      proof -
        assume nb: "\<not> b" and "k < k'"
        then have "k' = Suc k \<or> Suc k < k'" using ih by auto
        then show "poll env k' > 0 \<and> int k' * tick_period \<le> timeout"
          using pos ih nb True by auto
      qed
      show ?thesis using ih step last by auto
    qed
  qed
qed

lemma sample_shutdown_run:
  "Shutdown second sample_shutdown =
     \<lparr>sd_result = Some (ErrActiveConnections 3 second), sd_polls = 1,
      sd_at = tick_period, sd_bailed = True\<rparr>"
  by (simp add: Shutdown_def shutdown_loop.simps[of _ _ 0] sample_shutdown_def
        tick_period_def second_def millisecond_def)

lemma relay_single_cleanup:
  "(done_by Bg (relay_run env sched) = [] \<or> done_by Fg (relay_run env sched) = [])
   \<and> (trace (relay_run env sched) = []
      \<or> (\<exists>w r n. copy_result env w = Some r \<and>
            trace (relay_run env sched) =
              take n [(w, Log (report env w r)), (w, Close Remote), (w, Close Local)]))
   \<and> (pc (relay_run env sched) g = Finished \<longrightarrow>
        done_by g (relay_run env sched) = []
        \<or> (\<exists>r. copy_result env g = Some r \<and>
              done_by g (relay_run env sched) = [Log (report env g r), Close Remote, Close Local]))
   \<and> (pc (relay_run env sched) Bg = Finished \<and> pc (relay_run env sched) Fg = Finished \<longrightarrow>
        (\<exists>w r. copy_result env w = Some r \<and>
           trace (relay_run env sched) =
             [(w, Log (report env w r)), (w, Close Remote), (w, Close Local)]))
   \<and> ((\<exists>h. pc (relay_run env sched) h = Finished) \<longrightarrow> length (firstErr (relay_run env sched)) = 1)
   \<and> (firstErr (relay_run env sched) = [] \<and> pc (relay_run env sched) g = AtSelect q \<longrightarrow>
        pc (relay_step env g (relay_run env sched)) g = Claimed q
        \<and> firstErr (relay_step env g (relay_run env sched)) = [snd q])"
proof -
  define s where "s = relay_run env sched"
  have inv: "relay_inv env s" unfolding s_def by (rule relay_inv_run)
  have c6: "firstErr s = [] \<and> pc s g = AtSelect q \<longrightarrow>
        pc (relay_step env g s) g = Claimed q \<and> firstErr (relay_step env g s) = [snd q]"
    by (simp add: relay_step_def)
  from inv consider
    (free) "firstErr s = []" "trace s = []"
      "\<forall>g. pc s g = Copying \<or> (\<exists>r. pc s g = AtSelect r \<and> copy_result env g = Some r)"
  | (taken) w l r where "l \<noteq> w" "copy_result env w = Some r" "firstErr s = [snd r]"
      "pc s l = Copying \<or> (\<exists>r'. pc s l = AtSelect r') \<or> pc s l = Finished"
      "(pc s w = Claimed r \<and> trace s = [])
          \<or> (pc s w = Reported \<and> trace s = [(w, Log (report env w r))])
          \<or> (pc s w = ClosedRemote \<and> trace s = [(w, Log (report env w r)), (w, Close Remote)])
          \<or> (pc s w = Finished \<and>
              trace s = [(w, Log (report env w r)), (w, Close Remote), (w, Close Local)])"
    unfolding relay_inv_def by blast
  then have
    "(done_by Bg s = [] \<or> done_by Fg s = [])
   \<and> (trace s = []
      \<or> (\<exists>w r n. copy_result env w = Some r \<and>
            trace s = take n [(w, Log (report env w r)), (w, Close Remote), (w, Close Local)]))
   \<and> (pc s g = Finished \<longrightarrow>
        done_by g s = []
        \<or> (\<exists>r. copy_result env g = Some r \<and>
              done_by g s = [Log (report env g r), Close Remote, Close Local]))
   \<and> (pc s Bg = Finished \<and> pc s Fg = Finished \<longrightarrow>
        (\<exists>w r. copy_result env w = Some r \<and>
           trace s = [(w, Log (report env w r)), (w, Close Remote), (w, Close Local)]))
   \<and> ((\<exists>h. pc s h = Finished) \<longrightarrow> length (firstErr s) = 1)"
  proof cases
    case free
    have "\<And>h. pc s h \<noteq> Finished" using free(3) by (metis gpc.distinct(9) gpc.distinct(17))
    with free show ?thesis by (simp add: done_by_def)
  next
    case taken
    let ?full = "[(w, Log (report env w r)), (w, Close Remote), (w, Close Local)]"
    have allw: "\<exists>n. trace s = take n ?full"
    proof -
      from taken(5) consider "trace s = take 0 ?full" | "trace s = take 1 ?full"
        | "trace s = take 2 ?full" | "trace s = take 3 ?full"
        by (auto simp: numeral_2_eq_2 numeral_3_eq_3)
      then show ?thesis by (cases; blast)
    qed
    have silent: "done_by l s = []"
      using taken(1,5) by (auto simp: done_by_def)
    have c1: "done_by Bg s = [] \<or> done_by Fg s = []"
      using silent by (cases l) auto
    have c2: "trace s = [] \<or> (\<exists>w r n. copy_result env w = Some r \<and>
            trace s = take n [(w, Log (report env w r)), (w, Close Remote), (w, Close Local)])"
      using allw taken(2) by blast
    have gl: "g = l \<or> g = w" using taken(1) by (rule goroutine_other)
    have c3: "pc s g = Finished \<longrightarrow>
        done_by g s = []
        \<or> (\<exists>r. copy_result env g = Some r \<and>
              done_by g s = [Log (report env g r), Close Remote, Close Local])"
    proof
      assume fin: "pc s g = Finished"
      from gl show "done_by g s = []
        \<or> (\<exists>r. copy_result env g = Some r \<and>
              done_by g s = [Log (report env g r), Close Remote, Close Local])"
      proof
        assume "g = l"
        then show ?thesis using silent by simp
      next
        assume gw: "g = w"
        with fin taken(5) have "trace s = ?full" by auto
        then have "done_by g s = [Log (report env g r), Close Remote, Close Local]"
          using gw by (simp add: done_by_def)
        then show ?thesis using taken(2) gw by blast
      qed
    qed
    have c4: "pc s Bg = Finished \<and> pc s Fg = Finished \<longrightarrow>
        (\<exists>w r. copy_result env w = Some r \<and>
           trace s = [(w, Log (report env w r)), (w, Close Remote), (w, Close Local)])"
    proof
      assume "pc s Bg = Finished \<and> pc s Fg = Finished"
      then have "pc s w = Finished" by (cases w) auto
      with taken(5) have "trace s = ?full" by auto
      with taken(2) show "\<exists>w r. copy_result env w = Some r \<and>
           trace s = [(w, Log (report env w r)), (w, Close Remote), (w, Close Local)]" by blast
    qed
    have c5: "(\<exists>h. pc s h = Finished) \<longrightarrow> length (firstErr s) = 1"
      using taken(3) by simp
    from c1 c2 c3 c4 c5 show ?thesis by blast
  qed
  with c6 show ?thesis unfolding s_def by blast
qed

lemma relay_step_other: "h \<noteq> g \<Longrightarrow> pc (relay_step env h s) g = pc s g"
  by (simp add: relay_step_def split: gpc.splits option.splits)

lemma relay_step_advances:
  "copy_result env g = Some r \<Longrightarrow>
   steps_left (pc (relay_step env g s) g) \<le> steps_left (pc s g) - 1"
  by (simp add: relay_step_def steps_left_def split: gpc.splits)

lemma relay_steps_advance:
  "copy_result env g = Some r \<Longrightarrow>
   steps_left (pc (foldl (\<lambda>s g. relay_step env g s) s (replicate n g)) g) \<le> steps_left (pc s g) - n"
proof (induction n arbitrary: s)
  case 0
  then show ?case by simp
next
  case (Suc n)
  have "steps_left (pc (foldl (\<lambda>s g. relay_step env g s) (relay_step env g s) (replicate n g)) g)
          \<le> steps_left (pc (relay_step env g s) g) - n"
    using Suc.IH[OF Suc.prems] .
  also have "\<dots> \<le> (steps_left (pc s g) - 1) - n"
    using relay_step_advances[OF Suc.prems, of s] by (rule diff_le_mono)
  finally show ?case by simp
qed

lemma steps_left_bound: "steps_left p \<le> 5"
  by (simp add: steps_left_def split: gpc.splits)

lemma steps_left_zero: "steps_left p = 0 \<longleftrightarrow> p = Finished"
  by (simp add: steps_left_def split: gpc.splits)

lemma relay_five_steps_finish:
  assumes "copy_result env g = Some r"
  shows "pc (foldl (\<lambda>s g. relay_step env g s) s (replicate 5 g)) g = Finished"
proof -
  have "steps_left (pc (foldl (\<lambda>s g. relay_step env g s) s (replicate 5 g)) g)
          \<le> steps_left (pc s g) - 5"
    using assms by (rule relay_steps_advance)
  then have "steps_left (pc (foldl (\<lambda>s g. relay_step env g s) s (replicate 5 g)) g) = 0"
    using steps_left_bound[of "pc s g"] by simp
  then show ?thesis by (simp only: steps_left_zero)
qed

lemma relay_finished_stays:
  "pc s g = Finished \<Longrightarrow> pc (relay_step env h s) g = Finished"
  by (cases "h = g") (simp_all add: relay_step_other, simp add: relay_step_def)

lemma relay_finished_stays_fold:
  "pc s g = Finished \<Longrightarrow> pc (foldl (\<lambda>s g. relay_step env g s) s hs) g = Finished"
  by (induction hs arbitrary: s) (simp_all add: relay_finished_stays)

lemma relay_inv_fold:
  "relay_inv env s \<Longrightarrow> relay_inv env (foldl (\<lambda>s g. relay_step env g s) s hs)"
  by (induction hs arbitrary: s) (simp_all add: relay_inv_step)

lemma relay_run_append:
  "relay_run env (xs @ ys) = foldl (\<lambda>s g. relay_step env g s) (relay_run env xs) ys"
  by (simp add: relay_run_def)

lemma relay_cleanup_happens:
  assumes some: "copy_result env g = Some r"
  shows "pc (relay_run env (sched @ [Bg, Bg, Bg, Bg, Bg, Fg, Fg, Fg, Fg, Fg])) g = Finished
       \<and> (\<exists>w q. copy_result env w = Some q \<and>
             trace (relay_run env (sched @ [Bg, Bg, Bg, Bg, Bg, Fg, Fg, Fg, Fg, Fg]))
               = [(w, Log (report env w q)), (w, Close Remote), (w, Close Local)])"
proof -
  have five: "[h, h, h, h, h] = replicate 5 h" for h :: goroutine
    by (simp add: numeral_eq_Suc)
  have split: "sched @ [Bg, Bg, Bg, Bg, Bg, Fg, Fg, Fg, Fg, Fg]
                 = (sched @ replicate 5 Bg) @ replicate 5 Fg"
    by (simp add: numeral_eq_Suc)
  define s where "s = relay_run env (sched @ [Bg, Bg, Bg, Bg, Bg, Fg, Fg, Fg, Fg, Fg])"
  have inv: "relay_inv env s" unfolding s_def by (rule relay_inv_run)
  have fin: "pc s h = Finished" if "copy_result env h = Some q" for h q
  proof (cases h)
    case Bg
    have "pc (relay_run env (sched @ replicate 5 Bg)) Bg = Finished"
      unfolding relay_run_append using that Bg by (auto intro: relay_five_steps_finish)
    then show ?thesis
      unfolding s_def Bg split relay_run_append[of env "sched @ replicate 5 Bg"]
      by (rule relay_finished_stays_fold)
  next
    case Fg
    show ?thesis
      unfolding s_def Fg split relay_run_append[of env "sched @ replicate 5 Bg"]
      using that Fg by (auto intro: relay_five_steps_finish)
  qed
  have gfin: "pc s g = Finished" using some by (rule fin)
  from inv consider
    (free) "\<forall>g. pc s g = Copying \<or> (\<exists>r. pc s g = AtSelect r \<and> copy_result env g = Some r)"
  | (taken) w q where "copy_result env w = Some q"
      "(pc s w = Claimed q \<and> trace s = [])
          \<or> (pc s w = Reported \<and> trace s = [(w, Log (report env w q))])
          \<or> (pc s w = ClosedRemote \<and> trace s = [(w, Log (report env w q)), (w, Close Remote)])
          \<or> (pc s w = Finished \<and>
              trace s = [(w, Log (report env w q)), (w, Close Remote), (w, Close Local)])"
    unfolding relay_inv_def by blast
  then have "\<exists>w q. copy_result env w = Some q \<and>
           trace s = [(w, Log (report env w q)), (w, Close Remote), (w, Close Local)]"
  proof cases
    case free
    then have "pc s g \<noteq> Finished" by (metis gpc.distinct(9) gpc.distinct(17))
    with gfin show ?thesis by simp
  next
    case taken
    have "pc s w = Finished" using taken(1) by (rule fin)
    with taken(2) have "trace s = [(w, Log (report env w q)), (w, Close Remote), (w, Close Local)]"
      by auto
    with taken(1) show ?thesis by blast
  qed
  with gfin show ?thesis unfolding s_def by blast
qed

lemma relay_winner_cleans_up:
  "pc s g = Claimed q \<Longrightarrow>
   pc (foldl (\<lambda>s g. relay_step env g s) s [g, g, g]) g = Finished
   \<and> trace (foldl (\<lambda>s g. relay_step env g s) s [g, g, g])
       = trace s @ [(g, Log (report env g q)), (g, Close Remote), (g, Close Local)]"
  by (simp add: relay_step_def)

lemma relay_copy_returns:
  "pc s g = Copying \<Longrightarrow> copy_result env g = Some r \<Longrightarrow> pc (relay_step env g s) g = AtSelect r"
  by (simp add: relay_step_def)

lemma setKeepAliver_block_events: "snd (setKeepAliver_block env conn) = keepalive_block env"
  by (simp add: setKeepAliver_block_def keepalive_block_def split: option.splits)





lemma Shutdown_outcome:
  "(sd_result (Shutdown timeout env) = None \<longleftrightarrow> final_load env = 0)
   \<and> (final_load env \<noteq> 0 \<longrightarrow>
        sd_result (Shutdown timeout env) = Some (ErrActiveConnections (final_load env) timeout))
   \<and> (\<forall>j. 0 < j \<and> j < sd_polls (Shutdown timeout env) \<longrightarrow> poll env j > 0)
   \<and> int (sd_polls (Shutdown timeout env)) * tick_period \<le> max timeout 0
   \<and> sd_at (Shutdown timeout env) \<le> max timeout 0
   \<and> (sd_bailed (Shutdown timeout env) \<longrightarrow>
        poll env (sd_polls (Shutdown timeout env)) = 0
        \<and> sd_at (Shutdown timeout env) = int (sd_polls (Shutdown timeout env)) * tick_period)
   \<and> (\<not> sd_bailed (Shutdown timeout env) \<longrightarrow>
        sd_at (Shutdown timeout env) = max timeout 0
        \<and> (\<forall>j. 0 < j \<and> j \<le> sd_polls (Shutdown timeout env) \<longrightarrow> poll env j > 0)
        \<and> timeout \<le> int (Suc (sd_polls (Shutdown timeout env))) * tick_period)"
proof -
  obtain k t b where l: "shutdown_loop timeout env 0 = (k, t, b)"
    by (cases "shutdown_loop timeout env 0") auto
  have sd: "Shutdown timeout env =
      \<lparr>sd_result = (if final_load env = 0 then None
                     else Some (ErrActiveConnections (final_load env) timeout)),
       sd_polls = k, sd_at = t, sd_bailed = b\<rparr>"
    using l by (simp add: Shutdown_def Let_def)
  note p = shutdown_loop_props[OF l]
  have q1: "\<forall>j. 0 < j \<and> j < k \<longrightarrow> poll env j > 0" using p by blast
  have q2: "int k * tick_period \<le> max timeout 0"
  proof (cases b)
    case True
    then show ?thesis using p by auto
  next
    case False
    then show ?thesis using p by (cases "0 < k") auto
  qed
  have q3: "t \<le> max timeout 0" using p by (cases b) auto
  have q4: "b \<longrightarrow> poll env k = 0 \<and> t = int k * tick_period" using p by blast
  have q5: "\<not> b \<longrightarrow> t = max timeout 0 \<and> (\<forall>j. 0 < j \<and> j \<le> k \<longrightarrow> poll env j > 0)
                \<and> timeout \<le> int (Suc k) * tick_period"
  proof
    assume nb: "\<not> b"
    have "\<And>j. 0 < j \<Longrightarrow> j \<le> k \<Longrightarrow> poll env j > 0"
    proof -
      fix j :: nat assume "0 < j" "j \<le> k"
      then have "(0 < j \<and> j < k) \<or> (j = k \<and> 0 < k)" by auto
      then show "poll env j > 0" using p nb by blast
    qed
    then show "t = max timeout 0 \<and> (\<forall>j. 0 < j \<and> j \<le> k \<longrightarrow> poll env j > 0)
                \<and> timeout \<le> int (Suc k) * tick_period"
      using p nb by blast
  qed
  show ?thesis unfolding sd using q1 q2 q3 q4 q5 by simp
qed

lemma sample_run_driven:
  "relay_run sample_relay [Bg, Bg, Bg, Bg, Bg, Fg, Fg, Fg, Fg, Fg] =
    \<lparr>firstErr = [Err 3], pc = (\<lambda>_. Finished),
     trace = [(Bg, Log (HadErrorReading ''local'' (Err 3))), (Bg, Close Remote), (Bg, Close Local)]\<rparr>"
  apply (simp add: relay_run_def relay_init_def relay_step_def sample_relay_def copy_result_def
           report_def logError_def fun_upd_def)
  apply (rule ext)
  apply (case_tac x; simp)
  done

section \<open>The claims\<close>

text \<open>
  C7. After any number of rounds that let the loop of \<open>myCopy\<close> continue, the round that
  ends it is classified as follows: a failed write of data that a successful read
  produced gives \<open>readErr = false\<close> with the write error; a failed read gives
  \<open>readErr = true\<close> with the read error, whether or not that round read or wrote anything;
  and a round whose read returns data together with an error, and whose write of that data
  fails, reports the read error with \<open>readErr = true\<close>.
\<close>

theorem myCopy_classifies:
  "list_all quiet pre \<Longrightarrow>
     (rd_n r > 0 \<and> rd_err r = None \<and> wr_err r = Some werr
        \<longrightarrow> myCopy (pre @ r # rest) = Some (False, werr))
   \<and> (rd_err r = Some e \<longrightarrow> myCopy (pre @ r # rest) = Some (True, e))
   \<and> (rd_n r > 0 \<and> rd_err r = Some e \<and> wr_err r = Some werr
        \<longrightarrow> myCopy (pre @ r # rest) = Some (True, e))"
  by (auto simp: myCopy_quiet_prefix split: option.splits)

theorem myCopy_classifies_witness:
  "list_all quiet [\<lparr>rd_n = 5, rd_err = None, wr_err = None\<rparr>]
   \<and> myCopy [\<lparr>rd_n = 5, rd_err = None, wr_err = None\<rparr>,
              \<lparr>rd_n = 3, rd_err = None, wr_err = Some (Err 7)\<rparr>] = Some (False, Err 7)
   \<and> myCopy [\<lparr>rd_n = 5, rd_err = None, wr_err = None\<rparr>,
              \<lparr>rd_n = 0, rd_err = Some EOF, wr_err = None\<rparr>] = Some (True, EOF)
   \<and> myCopy [\<lparr>rd_n = 5, rd_err = None, wr_err = None\<rparr>,
              \<lparr>rd_n = 3, rd_err = Some (Err 1), wr_err = Some (Err 7)\<rparr>] = Some (True, Err 1)"
proof -
  have q: "list_all quiet [\<lparr>rd_n = 5, rd_err = None, wr_err = None\<rparr>]"
    by (simp add: quiet_def)
  show ?thesis
    using q
      myCopy_classifies [OF q, of "\<lparr>rd_n = 3, rd_err = None, wr_err = Some (Err 7)\<rparr>" "Err 7" "[]"]
      myCopy_classifies [OF q, of "\<lparr>rd_n = 0, rd_err = Some EOF, wr_err = None\<rparr>" _ "[]" EOF]
      myCopy_classifies [OF q, of "\<lparr>rd_n = 3, rd_err = Some (Err 1), wr_err = Some (Err 7)\<rparr>" "Err 7" "[]" "Err 1"]
    by simp
qed

text \<open>
  C4. Whatever the two copies return and however the two goroutines of \<open>copyThenClose\<close>
  interleave. Safety: one of the two has logged and closed nothing; everything logged and
  closed so far is an initial part of one goroutine's cleanup (its single report, then
  \<open>remote.Close()\<close>, then \<open>local.Close()\<close>); a finished goroutine has done either nothing
  or that whole cleanup; once both are finished exactly that cleanup has happened, once;
  and as soon as either is finished the slot of \<open>firstErr\<close> is taken. Progress: a
  goroutine whose copy has returned moves on to its \<open>select\<close>; the one that reaches its
  \<open>select\<close> while the slot is free, which is the one that gets there first, takes the
  slot; the one that took it goes on, in its next three steps, to emit its report and to
  close both endpoints; and as soon as either copy returns, five more steps of each
  goroutine leave exactly one whole cleanup done, and \<open>copyThenClose\<close> returned if the
  caller's own copy is among those that return.
\<close>

theorem copyThenClose_single_cleanup:
  "(done_by Bg (relay_run env sched) = [] \<or> done_by Fg (relay_run env sched) = [])
   \<and> (trace (relay_run env sched) = []
      \<or> (\<exists>w r n. copy_result env w = Some r \<and>
            trace (relay_run env sched) =
              take n [(w, Log (report env w r)), (w, Close Remote), (w, Close Local)]))
   \<and> (pc (relay_run env sched) g = Finished \<longrightarrow>
        done_by g (relay_run env sched) = []
        \<or> (\<exists>r. copy_result env g = Some r \<and>
              done_by g (relay_run env sched) = [Log (report env g r), Close Remote, Close Local]))
   \<and> (pc (relay_run env sched) Bg = Finished \<and> pc (relay_run env sched) Fg = Finished \<longrightarrow>
        (\<exists>w r. copy_result env w = Some r \<and>
           trace (relay_run env sched) =
             [(w, Log (report env w r)), (w, Close Remote), (w, Close Local)]))
   \<and> ((\<exists>h. pc (relay_run env sched) h = Finished) \<longrightarrow> length (firstErr (relay_run env sched)) = 1)
   \<and> (firstErr (relay_run env sched) = [] \<and> pc (relay_run env sched) g = AtSelect q \<longrightarrow>
        pc (relay_step env g (relay_run env sched)) g = Claimed q
        \<and> firstErr (relay_step env g (relay_run env sched)) = [snd q])
   \<and> (pc (relay_run env sched) g = Copying \<and> copy_result env g = Some q \<longrightarrow>
        pc (relay_step env g (relay_run env sched)) g = AtSelect q)
   \<and> (pc (relay_run env sched) g = Claimed q \<longrightarrow>
        pc (relay_run env (sched @ [g, g, g])) g = Finished
        \<and> trace (relay_run env (sched @ [g, g, g]))
            = trace (relay_run env sched)
              @ [(g, Log (report env g q)), (g, Close Remote), (g, Close Local)])
   \<and> (copy_result env g = Some q \<longrightarrow>
        (\<exists>w r. copy_result env w = Some r \<and>
           trace (relay_run env (sched @ [Bg, Bg, Bg, Bg, Bg, Fg, Fg, Fg, Fg, Fg]))
             = [(w, Log (report env w r)), (w, Close Remote), (w, Close Local)]))
   \<and> (copy_result env Fg = Some q \<longrightarrow>
        (\<exists>w r. copy_result env w = Some r \<and>
           copyThenClose env (sched @ [Bg, Bg, Bg, Bg, Bg, Fg, Fg, Fg, Fg, Fg])
             = Some [Log (report env w r), Close Remote, Close Local]))"
proof -
  note safety = relay_single_cleanup[of env sched g q]
  have p7: "pc (relay_run env sched) g = Copying \<and> copy_result env g = Some q \<longrightarrow>
        pc (relay_step env g (relay_run env sched)) g = AtSelect q"
    by (simp add: relay_copy_returns)
  have p8: "pc (relay_run env sched) g = Claimed q \<longrightarrow>
        pc (relay_run env (sched @ [g, g, g])) g = Finished
        \<and> trace (relay_run env (sched @ [g, g, g]))
            = trace (relay_run env sched)
              @ [(g, Log (report env g q)), (g, Close Remote), (g, Close Local)]"
    unfolding relay_run_append using relay_winner_cleans_up[of "relay_run env sched" g q env]
    by blast
  have p9: "copy_result env g = Some q \<longrightarrow>
        (\<exists>w r. copy_result env w = Some r \<and>
           trace (relay_run env (sched @ [Bg, Bg, Bg, Bg, Bg, Fg, Fg, Fg, Fg, Fg]))
             = [(w, Log (report env w r)), (w, Close Remote), (w, Close Local)])"
    using relay_cleanup_happens[of env g q sched] by blast
  have p10: "copy_result env Fg = Some q \<longrightarrow>
        (\<exists>w r. copy_result env w = Some r \<and>
           copyThenClose env (sched @ [Bg, Bg, Bg, Bg, Bg, Fg, Fg, Fg, Fg, Fg])
             = Some [Log (report env w r), Close Remote, Close Local])"
  proof
    assume "copy_result env Fg = Some q"
    from relay_cleanup_happens[OF this, of sched]
    obtain w r where "copy_result env w = Some r"
      and "pc (relay_run env (sched @ [Bg, Bg, Bg, Bg, Bg, Fg, Fg, Fg, Fg, Fg])) Fg = Finished"
      and "trace (relay_run env (sched @ [Bg, Bg, Bg, Bg, Bg, Fg, Fg, Fg, Fg, Fg]))
             = [(w, Log (report env w r)), (w, Close Remote), (w, Close Local)]"
      by blast
    then have "copy_result env w = Some r \<and>
           copyThenClose env (sched @ [Bg, Bg, Bg, Bg, Bg, Fg, Fg, Fg, Fg, Fg])
             = Some [Log (report env w r), Close Remote, Close Local]"
      by (simp add: copyThenClose_def)
    then show "\<exists>w r. copy_result env w = Some r \<and>
           copyThenClose env (sched @ [Bg, Bg, Bg, Bg, Bg, Fg, Fg, Fg, Fg, Fg])
             = Some [Log (report env w r), Close Remote, Close Local]" by blast
  qed
  from safety p7 p8 p9 p10 show ?thesis by (elim conjE) (intro conjI; assumption)
qed

theorem copyThenClose_single_cleanup_witness:
  "pc (relay_run sample_relay [Fg, Bg, Fg, Fg, Bg, Fg, Fg]) Bg = Finished
   \<and> pc (relay_run sample_relay [Fg, Bg, Fg, Fg, Bg, Fg, Fg]) Fg = Finished
   \<and> trace (relay_run sample_relay [Fg, Bg, Fg, Fg, Bg, Fg, Fg]) =
       [(Fg, Log (InstanceClosed ''remote'')), (Fg, Close Remote), (Fg, Close Local)]
   \<and> done_by Bg (relay_run sample_relay [Fg, Bg, Fg, Fg, Bg, Fg, Fg]) = []
   \<and> length (firstErr (relay_run sample_relay [Fg, Bg, Fg, Fg, Bg, Fg, Fg])) = 1
   \<and> copy_result sample_relay Fg = Some (True, EOF)
   \<and> trace (relay_run sample_relay ([] @ [Bg, Bg, Bg, Bg, Bg, Fg, Fg, Fg, Fg, Fg])) =
       [(Bg, Log (HadErrorReading ''local'' (Err 3))), (Bg, Close Remote), (Bg, Close Local)]
   \<and> copyThenClose sample_relay ([] @ [Bg, Bg, Bg, Bg, Bg, Fg, Fg, Fg, Fg, Fg]) =
       Some [Log (HadErrorReading ''local'' (Err 3)), Close Remote, Close Local]"
  using copyThenClose_single_cleanup
          [of sample_relay "[Fg, Bg, Fg, Fg, Bg, Fg, Fg]" Fg "(True, EOF)"]
        copyThenClose_single_cleanup [of sample_relay "[]" Fg "(True, EOF)"]
  by (simp add: sample_run sample_run_driven done_by_def copyThenClose_def)
     (simp add: sample_relay_def copy_result_def)

text \<open>
  C1 (as amended). For every interleaving of fewer than \<open>2^64\<close> sessions the counter is
  the number of sessions between their increment and their decrement, so it never wraps
  below zero. With a positive \<open>MaxConnections\<close>, the sessions in flight that passed the
  check of line 142 never number more than the maximum; the counter itself exceeds the
  maximum by at most the number of sessions in flight that are being turned away.
\<close>

theorem counter_counts_sessions_in_flight:
  "length envs < 2 ^ 64 \<Longrightarrow>
     unat (connectionsCounter (cl (proxy_run c envs sched)))
       = count_where in_flight (sessions (proxy_run c envs sched))
   \<and> (MaxConnections c > 0 \<longrightarrow>
        count_where (admitted c) (sessions (proxy_run c envs sched)) \<le> unat (MaxConnections c)
      \<and> unat (connectionsCounter (cl (proxy_run c envs sched)))
          \<le> unat (MaxConnections c) + count_where (refused c) (sessions (proxy_run c envs sched)))"
proof -
  assume n: "length envs < 2 ^ 64"
  define s where "s = proxy_run c envs sched"
  have inv: "proxy_inv c (length envs) s" unfolding s_def using n by (rule proxy_inv_run)
  then have cnt: "unat (connectionsCounter (cl s)) = count_where in_flight (sessions s)"
    and fl: "count_where (flying_le (unat (MaxConnections c))) (sessions s) \<le> unat (MaxConnections c)"
    by (auto simp: proxy_inv_def)
  have adm: "count_where (admitted c) (sessions s) \<le> unat (MaxConnections c)"
    if "MaxConnections c > 0"
  proof -
    have "count_where (admitted c) (sessions s)
            \<le> count_where (flying_le (unat (MaxConnections c))) (sessions s)"
      by (rule count_where_mono)
         (use that in \<open>auto simp: admitted_def flying_le_def word_le_nat_alt word_less_nat_alt
                          split: session_pc.splits\<close>)
    then show ?thesis using fl by simp
  qed
  have "unat (connectionsCounter (cl s)) = count_where in_flight (sessions s)
   \<and> (MaxConnections c > 0 \<longrightarrow>
        count_where (admitted c) (sessions s) \<le> unat (MaxConnections c)
      \<and> unat (connectionsCounter (cl s))
          \<le> unat (MaxConnections c) + count_where (refused c) (sessions s))"
    using cnt adm count_where_split[of "sessions s" c] by auto
  then show ?thesis unfolding s_def .
qed

theorem counter_counts_sessions_in_flight_witness:
  "length [sample_session, sample_session] < 2 ^ 64
   \<and> MaxConnections sample_client > 0
   \<and> unat (connectionsCounter (cl (proxy_run sample_client [sample_session, sample_session] [0, 1]))) = 2
   \<and> count_where (admitted sample_client)
        (sessions (proxy_run sample_client [sample_session, sample_session] [0, 1])) = 1
   \<and> count_where (refused sample_client)
        (sessions (proxy_run sample_client [sample_session, sample_session] [0, 1])) = 1"
  using counter_counts_sessions_in_flight
          [of "[sample_session, sample_session]" sample_client "[0, 1]"]
  unfolding sample_two_enter
  by (simp add: count_where_def admitted_def refused_def in_flight_def sample_client_def)

text \<open>
  C1 as stated fails: with a maximum of 1 and two sessions that have both passed line 137,
  the counter is 2.
\<close>

theorem counter_exceeds_max_counterexample:
  "MaxConnections sample_client > 0
   \<and> \<not> connectionsCounter (cl (proxy_run sample_client [sample_session, sample_session] [0, 1]))
        \<le> MaxConnections sample_client"
  unfolding sample_two_enter by (simp add: sample_client_def word_le_nat_alt)

text \<open>
  C2 (as amended). Every session, let in or turned away, adds 1 to the counter exactly
  once, when it starts, and adds \<open>^uint64(0)\<close> exactly once, when \<open>handleConn\<close> returns:
  at any moment of any interleaving the additions a session has made are none, the
  increment, or the increment followed by the decrement, by where the session stands. A
  session is turned away exactly when a maximum is set and the value its own increment
  produced is above it. A session that is turned away, or whose certificate fetch, dial or
  handshake fails, does return, so its decrement runs.
\<close>

theorem every_session_adds_once_and_subtracts_once:
  "(i < length envs \<longrightarrow>
      adds_of i (proxy_run c envs sched)
        = (case snd (sessions (proxy_run c envs sched) ! i) of
             Waiting \<Rightarrow> [] | InFlight a \<Rightarrow> [1] | Returned r \<Rightarrow> [1, NOT 0]))
   \<and> ((\<exists>evs. handleConn_body c inst env a = Some (Some (ErrTooManyConnections m), evs))
        \<longleftrightarrow> MaxConnections c > 0 \<and> a > MaxConnections c \<and> m = MaxConnections c)
   \<and> ((MaxConnections c > 0 \<and> a > MaxConnections c) \<or> cert_err env \<noteq> None
        \<or> dial_err env \<noteq> None \<or> handshake_err env \<noteq> None
        \<longrightarrow> (\<exists>e evs. handleConn_body c inst env a = Some (Some e, evs)))"
proof -
  have "adds_inv (proxy_run c envs sched)"
    unfolding proxy_run_def using adds_inv_init by (rule adds_inv_fold)
  then have p1: "i < length envs \<longrightarrow>
      adds_of i (proxy_run c envs sched)
        = (case snd (sessions (proxy_run c envs sched) ! i) of
             Waiting \<Rightarrow> [] | InFlight a \<Rightarrow> [1] | Returned r \<Rightarrow> [1, NOT 0])"
    by (simp add: adds_inv_def adds_expected_def proxy_run_length)
  have p2: "(\<exists>evs. handleConn_body c inst env a = Some (Some (ErrTooManyConnections m), evs))
        \<longleftrightarrow> MaxConnections c > 0 \<and> a > MaxConnections c \<and> m = MaxConnections c"
    by (auto simp: handleConn_body_def split: option.splits)
  have p3: "(MaxConnections c > 0 \<and> a > MaxConnections c) \<or> cert_err env \<noteq> None
        \<or> dial_err env \<noteq> None \<or> handshake_err env \<noteq> None
        \<longrightarrow> (\<exists>e evs. handleConn_body c inst env a = Some (Some e, evs))"
    by (auto simp: handleConn_body_def split: option.splits)
  from p1 p2 p3 show ?thesis by blast
qed

theorem every_session_adds_once_and_subtracts_once_witness:
  "(1::nat) < length [sample_session, sample_session]
   \<and> adds_of 1 (proxy_run sample_client [sample_session, sample_session] [0, 1, 1]) = [1, NOT 0]
   \<and> MaxConnections sample_client > 0 \<and> (2 :: 64 word) > MaxConnections sample_client
   \<and> handleConn_body sample_client ''db'' sample_session 2
       = Some (Some (ErrTooManyConnections 1), [Close Local])"
  using every_session_adds_once_and_subtracts_once
          [of 1 "[sample_session, sample_session]" sample_client "[0, 1, 1]" "''db''"
              sample_session 2 1]
  unfolding sample_denied
  by (simp add: sample_client_def handleConn_body_def word_less_nat_alt)

text \<open>
  C2 as stated fails: with a maximum of 1 and one session in flight, a second session is
  turned away, and it has incremented the counter (and decremented it again).
\<close>

theorem denied_session_was_counted_counterexample:
  "snd (sessions (proxy_run sample_client [sample_session, sample_session] [0, 1, 1]) ! 1)
     = Returned (Some (ErrTooManyConnections (MaxConnections sample_client)))
   \<and> adds_of 1 (proxy_run sample_client [sample_session, sample_session] [0, 1, 1]) = [1, NOT 0]"
  unfolding sample_denied by (simp add: adds_of_def adds_in_def sample_client_def)

text \<open>
  C3. What \<open>handleConn\<close> does when the certificate source fails, and when the handshake
  fails, in a session that was let in: the counter is incremented and decremented, and on
  the handshake failure the dialled connection is closed, but no \<open>Close\<close> of the accepted
  local connection is among the events (the keepalive block has none either).
\<close>

theorem handleConn_failure_leaves_local_open:
  "handleConn (c\<lparr>MaxConnections := 0\<rparr>) inst (env\<lparr>cert_err := Some e\<rparr>)
     = Some (Some (ErrCertSource e),
             [AtomicAdd 1, CertRequest inst, AtomicAdd (NOT 0)],
             c\<lparr>MaxConnections := 0\<rparr>)
   \<and> handleConn (c\<lparr>MaxConnections := 0\<rparr>) inst
        (env\<lparr>cert_err := None, dial_err := None, handshake_err := Some e\<rparr>)
     = Some (Some (ErrHandshake e),
             [AtomicAdd 1, CertRequest inst, Dial (RemoteAddr c)] @ keepalive_block env
             @ [Handshake, Close Remote, AtomicAdd (NOT 0)],
             c\<lparr>MaxConnections := 0\<rparr>)
   \<and> Close Local \<notin> set (keepalive_block env)"
  by (simp add: handleConn_def handleConn_body_def keepalive_block_def split: option.splits)

text \<open>
  C5. The peer verifier rejects an empty list of presented certificates; else rejects a
  first certificate that does not parse; else rejects one that the chain check against the
  pinned pool refuses; else rejects one whose \<open>CommonName\<close> is not equal, as a string, to
  the expected name; and it accepts exactly when the first certificate parses, passes the
  chain check and carries exactly the expected name. Each rejection is stated under the
  success of the checks before it alone, which is the order of the checks.
\<close>

theorem peer_verifier_checks_in_order:
  "genVerifyPeerCertificateFunc parse verify name pool [] = Some NoCertificateToVerify
   \<and> (parse raw = Inl e \<longrightarrow>
        genVerifyPeerCertificateFunc parse verify name pool (raw # rest)
          = Some (ParseCertificateError e))
   \<and> (parse raw = Inr cert
        \<and> verify \<lparr>Roots = pool, Intermediates = [], DNSName = []\<rparr> cert = Some e \<longrightarrow>
        genVerifyPeerCertificateFunc parse verify name pool (raw # rest) = Some (VerifyError e))
   \<and> (parse raw = Inr cert
        \<and> verify \<lparr>Roots = pool, Intermediates = [], DNSName = []\<rparr> cert = None
        \<and> CommonName cert \<noteq> name \<longrightarrow>
        genVerifyPeerCertificateFunc parse verify name pool (raw # rest)
          = Some (WrongCommonName (CommonName cert) name))
   \<and> (genVerifyPeerCertificateFunc parse verify name pool rawCerts = None \<longleftrightarrow>
        (\<exists>raw0 rest0 cert0. rawCerts = raw0 # rest0 \<and> parse raw0 = Inr cert0
           \<and> verify \<lparr>Roots = pool, Intermediates = [], DNSName = []\<rparr> cert0 = None
           \<and> CommonName cert0 = name))"
  by (auto simp: genVerifyPeerCertificateFunc_def split: list.splits sum.splits option.splits)

theorem peer_verifier_checks_in_order_witness:
  "sample_parse None = Inl (Err 1)
   \<and> genVerifyPeerCertificateFunc sample_parse sample_verify serverName [sample_root]
        [None, Some sample_leaf] = Some (ParseCertificateError (Err 1))
   \<and> genVerifyPeerCertificateFunc sample_parse sample_verify serverName []
        [Some sample_leaf] = Some (VerifyError (Err 0))
   \<and> genVerifyPeerCertificateFunc sample_parse sample_verify serverName [sample_root]
        [Some sample_leaf_lowercase]
        = Some (WrongCommonName (CommonName sample_leaf_lowercase) serverName)
   \<and> genVerifyPeerCertificateFunc sample_parse sample_verify serverName [sample_root]
        [Some sample_leaf] = None"
  using peer_verifier_checks_in_order
          [where parse = sample_parse and verify = sample_verify and name = serverName
             and pool = "[sample_root]" and raw = None and e = "Err 1"
             and rest = "[Some sample_leaf]" and rawCerts = "[Some sample_leaf]"]
        peer_verifier_checks_in_order
          [where parse = sample_parse and verify = sample_verify and name = serverName
             and pool = "[]" and raw = "Some sample_leaf" and cert = sample_leaf
             and e = "Err 0" and rest = "[]"]
        peer_verifier_checks_in_order
          [where parse = sample_parse and verify = sample_verify and name = serverName
             and pool = "[sample_root]" and raw = "Some sample_leaf_lowercase"
             and cert = sample_leaf_lowercase and rest = "[]"]
  by (simp add: sample_parse_def sample_verify_def issued_by_def sample_root_def sample_leaf_def
        sample_leaf_lowercase_def serverName_def)

text \<open>
  C6 (as amended). A failure to bind makes \<open>listen\<close> return that error at once, and an
  accept error that is not temporary makes it close the listener and return that error:
  both end the acceptor. \<open>Run\<close> does not return either of them: the goroutine that ran
  \<open>listen\<close> logs the error, and \<open>Run\<close> returns only once the context is cancelled, with
  the outcome of \<open>Shutdown\<close> (\<open>nil\<close>, or the shutdown error wrapped).
\<close>

theorem listen_error_ends_acceptor_not_Run:
  "(listen_err lenv = Some e \<longrightarrow> listen c lenv = (Some (ErrNetListen e), [], []))
   \<and> (listen_err lenv = None \<and> accepts lenv = pre @ AcceptOther e # rest \<and> list_all goes_on pre
        \<longrightarrow> fst (listen c lenv) = Some (ErrAccept (LocalAddr c) e)
            \<and> last (fst (snd (listen c lenv))) = CloseListener)
   \<and> returned (Run c env) =
        (case cancel_after env of
           None \<Rightarrow> None
         | Some n \<Rightarrow>
             Some (case sd_result (Shutdown second (renv_shutdown env)) of
                     None \<Rightarrow> None
                   | Some f \<Rightarrow> Some (ErrDuringShutdown f)))
   \<and> returned (Run c env) \<noteq> Some (Some (ErrNetListen e))
   \<and> returned (Run c env) \<noteq> Some (Some (ErrAccept a e))
   \<and> (fst (listen c (renv_listen env)) = Some f
        \<longrightarrow> Log (ListenError f) \<in> set (run_log (Run c env)))"
proof -
  have p1: "listen_err lenv = Some e \<longrightarrow> listen c lenv = (Some (ErrNetListen e), [], [])"
    by (simp add: listen_def)
  have p2: "listen_err lenv = None \<and> accepts lenv = pre @ AcceptOther e # rest \<and> list_all goes_on pre
        \<longrightarrow> fst (listen c lenv) = Some (ErrAccept (LocalAddr c) e)
            \<and> last (fst (snd (listen c lenv))) = CloseListener"
    using accept_loop_fatal[of pre c e rest]
    by (auto simp: listen_def split: prod.splits)
  have p4: "returned (Run c env) \<noteq> Some (Some (ErrNetListen e))"
    and p5: "returned (Run c env) \<noteq> Some (Some (ErrAccept a e))"
    by (simp_all add: Run_returned split: option.splits)
  have p6: "fst (listen c (renv_listen env)) = Some f
        \<longrightarrow> Log (ListenError f) \<in> set (run_log (Run c env))"
    by (auto simp: Run_def Let_def split: prod.splits)
  show ?thesis using p1 p2 Run_returned p4 p5 p6 by blast
qed

theorem listen_error_ends_acceptor_not_Run_witness:
  "listen_err sample_bind_failure = Some (Err 98)
   \<and> listen sample_client sample_bind_failure = (Some (ErrNetListen (Err 98)), [], [])
   \<and> list_all goes_on [AcceptConn 0 True, AcceptTemporary (Err 24) (3 * millisecond)]
   \<and> fst (listen sample_client sample_accept_failure) = Some (ErrAccept ''127.0.0.1:3307'' (Err 9))
   \<and> last (fst (snd (listen sample_client sample_accept_failure))) = CloseListener
   \<and> fst (listen sample_client sample_bind_failure) = Some (ErrNetListen (Err 98))
   \<and> Log (ListenError (ErrNetListen (Err 98)))
       \<in> set (run_log (Run sample_client
            \<lparr>renv_listen = sample_bind_failure, cancel_after = None,
             renv_shutdown = sample_drained\<rparr>))
   \<and> returned (Run sample_client
        \<lparr>renv_listen = sample_bind_failure, cancel_after = None, renv_shutdown = sample_drained\<rparr>)
       = None"
  using listen_error_ends_acceptor_not_Run
          [where lenv = sample_bind_failure and e = "Err 98" and c = sample_client
             and env = "\<lparr>renv_listen = sample_bind_failure, cancel_after = None,
                         renv_shutdown = sample_drained\<rparr>"
             and f = "ErrNetListen (Err 98)"]
        listen_error_ends_acceptor_not_Run
          [where lenv = sample_accept_failure and e = "Err 9" and c = sample_client
             and pre = "[AcceptConn 0 True, AcceptTemporary (Err 24) (3 * millisecond)]"
             and rest = "[]"]
  by (simp add: sample_bind_failure_def sample_accept_failure_def goes_on_def sample_client_def
        listen_def)

text \<open>
  C6 as stated fails: the bind fails, and \<open>Run\<close> has not returned while the context is
  not cancelled; once it is cancelled \<open>Run\<close> returns \<open>nil\<close>.
\<close>

theorem Run_swallows_listen_error_counterexample:
  "fst (listen sample_client sample_bind_failure) = Some (ErrNetListen (Err 98))
   \<and> returned (Run sample_client
        \<lparr>renv_listen = sample_bind_failure, cancel_after = None, renv_shutdown = sample_drained\<rparr>)
       = None
   \<and> returned (Run sample_client
        \<lparr>renv_listen = sample_bind_failure, cancel_after = Some 0, renv_shutdown = sample_drained\<rparr>)
       = Some None"
  by (simp add: Run_returned Shutdown_def sample_drained_def sample_bind_failure_def listen_def
        split: prod.splits)

text \<open>
  C8. A run of \<open>Shutdown\<close> with a timeout of one second in which the poll at 100 ms reads
  zero and a session enters before the read of line 232, which reads 3: the loop is left by
  the tick branch (the one that logs that there are no connections to wait for), and the
  result is the failure naming 3 active connections and the timeout of one second,
  returned at 100 ms.
\<close>

theorem Shutdown_fails_before_timeout:
  "tick_period < second
   \<and> poll sample_shutdown 1 = 0
   \<and> sd_bailed (Shutdown second sample_shutdown)
   \<and> sd_result (Shutdown second sample_shutdown) = Some (ErrActiveConnections 3 second)
   \<and> sd_at (Shutdown second sample_shutdown) = tick_period"
  unfolding sample_shutdown_run
  by (simp add: sample_shutdown_def tick_period_def second_def millisecond_def)



text \<open>
  C10. The verifier's answer depends on the first presented certificate alone, and the
  chain check is asked with the pinned roots and no intermediates: when that check refuses
  the leaf, the verifier fails with that error whatever else the peer presented.
\<close>

theorem peer_verifier_ignores_presented_intermediates:
  "genVerifyPeerCertificateFunc parse verify name pool (raw # rest)
     = genVerifyPeerCertificateFunc parse verify name pool [raw]
   \<and> (parse raw = Inr cert
        \<and> verify \<lparr>Roots = pool, Intermediates = [], DNSName = []\<rparr> cert = Some e \<longrightarrow>
        genVerifyPeerCertificateFunc parse verify name pool (raw # rest) = Some (VerifyError e))"
  by (auto simp: genVerifyPeerCertificateFunc_def split: sum.splits option.splits)

theorem peer_verifier_ignores_presented_intermediates_witness:
  "sample_parse (Some sample_leaf_deep) = Inr sample_leaf_deep
   \<and> sample_verify \<lparr>Roots = [sample_root], Intermediates = [], DNSName = []\<rparr> sample_leaf_deep
       = Some (Err 0)
   \<and> sample_verify \<lparr>Roots = [sample_root], Intermediates = [sample_intermediate], DNSName = []\<rparr>
         sample_leaf_deep = None
   \<and> genVerifyPeerCertificateFunc sample_parse sample_verify serverName [sample_root]
        [Some sample_leaf_deep, Some sample_intermediate] = Some (VerifyError (Err 0))"
  using peer_verifier_ignores_presented_intermediates
          [where parse = sample_parse and verify = sample_verify and name = serverName
             and pool = "[sample_root]" and raw = "Some sample_leaf_deep"
             and rest = "[Some sample_intermediate]" and cert = sample_leaf_deep and e = "Err 0"]
  by (simp add: sample_parse_def sample_verify_def issued_by_def sample_root_def
        sample_leaf_deep_def sample_intermediate_def genVerifyPeerCertificateFunc_def)

end
